theory Spec2Isabelle
  imports Main "HOL-Library.Word" "HOL-Library.AList" "HOL-Library.Multiset"
begin

unbundle bit_operations_syntax

section \<open>Data model\<close>

text \<open>
  A Python \<open>bytes\<close> value is a list of 8-bit words. A Python \<open>str\<close> is a list of
  Unicode code points (natural numbers below \<open>0x110000\<close>). A \<open>dict\<close> is an
  association list in insertion order: \<open>d[k] = v\<close> is \<open>AList.update k v d\<close> (an
  existing key keeps its position, a new key goes to the end), \<open>del d[k]\<close> is
  \<open>AList.delete k d\<close>, \<open>d[k]\<close> is \<open>map_of d k\<close>, and iteration runs from the
  head of the list.
\<close>

type_synonym byte = "8 word"
type_synonym bytes = "byte list"
type_synonym str = "nat list"
type_synonym crchash = "32 word"

datatype error = UnicodeEncodeError | StructError | ValueError | KeyError

definition MAGIC_KEYWORD :: bytes where
  "MAGIC_KEYWORD = [0x56, 0x43, 0x43, 0x44]"

definition VERSION :: int where
  "VERSION = 1"

definition BLOCK_SIZE :: nat where
  "BLOCK_SIZE = 8192"

record LineData =
  hash :: crchash
  offset :: nat
  len :: nat

record BlockData =
  line_data :: "LineData list"
  block :: bytes

section \<open>Library functions used by the compiler\<close>

subsection \<open>\<open>struct.pack\<close>\<close>

text \<open>
  \<open>pack\<close> is called with the format characters \<open>h\<close>, \<open>H\<close>, \<open>i\<close> and \<open>I\<close> and no
  byte-order prefix, that is in the byte order of the host; the model is that of a
  little-endian host. A value outside the range of the format raises \<open>struct.error\<close>.
\<close>

fun le_bytes :: "nat \<Rightarrow> nat \<Rightarrow> bytes" where
  "le_bytes 0 x = []"
| "le_bytes (Suc n) x = of_nat (x mod 256) # le_bytes n (x div 256)"

fun le_nat :: "bytes \<Rightarrow> nat" where
  "le_nat [] = 0"
| "le_nat (b # bs) = unat b + 256 * le_nat bs"

definition pack_I :: "nat \<Rightarrow> error + bytes" where
  "pack_I x = (if x < 2 ^ 32 then Inr (le_bytes 4 x) else Inl StructError)"

definition pack_H :: "nat \<Rightarrow> error + bytes" where
  "pack_H x = (if x < 2 ^ 16 then Inr (le_bytes 2 x) else Inl StructError)"

definition pack_i :: "int \<Rightarrow> error + bytes" where
  "pack_i x = (if - (2 ^ 31) \<le> x \<and> x < 2 ^ 31
               then Inr (le_bytes 4 (nat (x mod 2 ^ 32))) else Inl StructError)"

definition pack_h :: "int \<Rightarrow> error + bytes" where
  "pack_h x = (if - (2 ^ 15) \<le> x \<and> x < 2 ^ 15
               then Inr (le_bytes 2 (nat (x mod 2 ^ 16))) else Inl StructError)"

subsection \<open>\<open>binascii.crc32\<close>\<close>

text \<open>
  The CRC-32 of zlib: reflected polynomial \<open>0xEDB88320\<close>, register initialised to
  \<open>0xFFFFFFFF\<close> and complemented at the end. The result is an unsigned 32-bit value.
\<close>

definition crc_shift :: "crchash \<Rightarrow> crchash" where
  "crc_shift c = (if bit c 0 then drop_bit 1 c XOR 0xEDB88320 else drop_bit 1 c)"

definition crc_byte :: "crchash \<Rightarrow> byte \<Rightarrow> crchash" where
  "crc_byte c b = (crc_shift ^^ 8) (c XOR ucast b)"

definition crc32 :: "bytes \<Rightarrow> crchash" where
  "crc32 bs = foldl crc_byte 0xFFFFFFFF bs XOR 0xFFFFFFFF"

subsection \<open>\<open>str.encode\<close>\<close>

text \<open>
  \<open>name.encode()\<close> is UTF-8 and \<open>line.encode("utf-16le")\<close> is UTF-16 little-endian,
  both with strict error handling: a surrogate code point raises \<open>UnicodeEncodeError\<close>.
  A number from \<open>0x110000\<close> on is no code point of a \<open>str\<close>; the model rejects it too.
\<close>

definition utf8_char :: "nat \<Rightarrow> error + bytes" where
  "utf8_char c =
     (if c < 0x80 then Inr [of_nat c]
      else if c < 0x800 then Inr [of_nat (0xC0 + c div 64), of_nat (0x80 + c mod 64)]
      else if 0xD800 \<le> c \<and> c < 0xE000 then Inl UnicodeEncodeError
      else if c < 0x10000 then
        Inr [of_nat (0xE0 + c div 4096), of_nat (0x80 + c div 64 mod 64),
             of_nat (0x80 + c mod 64)]
      else if c < 0x110000 then
        Inr [of_nat (0xF0 + c div 262144), of_nat (0x80 + c div 4096 mod 64),
             of_nat (0x80 + c div 64 mod 64), of_nat (0x80 + c mod 64)]
      else Inl UnicodeEncodeError)"

fun encode_utf8 :: "str \<Rightarrow> error + bytes" where
  "encode_utf8 [] = Inr []"
| "encode_utf8 (c # cs) =
     (case utf8_char c of
        Inl e \<Rightarrow> Inl e
      | Inr b \<Rightarrow> (case encode_utf8 cs of Inl e \<Rightarrow> Inl e | Inr bs \<Rightarrow> Inr (b @ bs)))"

definition utf16le_char :: "nat \<Rightarrow> error + bytes" where
  "utf16le_char c =
     (if 0xD800 \<le> c \<and> c < 0xE000 then Inl UnicodeEncodeError
      else if c < 0x10000 then Inr (le_bytes 2 c)
      else if c < 0x110000 then
        Inr (le_bytes 2 (0xD800 + (c - 0x10000) div 1024)
             @ le_bytes 2 (0xDC00 + (c - 0x10000) mod 1024))
      else Inl UnicodeEncodeError)"

fun encode_utf16le :: "str \<Rightarrow> error + bytes" where
  "encode_utf16le [] = Inr []"
| "encode_utf16le (c # cs) =
     (case utf16le_char c of
        Inl e \<Rightarrow> Inl e
      | Inr b \<Rightarrow> (case encode_utf16le cs of Inl e \<Rightarrow> Inl e | Inr bs \<Rightarrow> Inr (b @ bs)))"

text \<open>The number of 16-bit code units UTF-16 uses for a text.\<close>

definition utf16_units :: "str \<Rightarrow> nat" where
  "utf16_units s = sum_list (map (\<lambda>c. if c < 0x10000 then 1 else 2) s)"

text \<open>
  \<open>str.lower\<close> follows the Unicode case tables, which are not part of this
  development: every function below that lowers a name takes the lowering function as
  its first argument. On ASCII text \<open>str.lower\<close> is \<open>ascii_lower\<close>.
\<close>

definition ascii_lower :: "str \<Rightarrow> str" where
  "ascii_lower s = map (\<lambda>c. if 65 \<le> c \<and> c \<le> 90 then c + 32 else c) s"

text \<open>A string literal as a \<open>str\<close>.\<close>

definition str :: "string \<Rightarrow> str" where
  "str s = map of_char s"

section \<open>The compiler\<close>

subsection \<open>\<open>GetLineSized\<close>\<close>

text \<open>
  The \<open>for\<close> loop over the keys of \<open>crc_len\<close>, with the running \<open>chash\<close> and
  \<open>max_size\<close>. The argument \<open>size\<close> of \<open>GetLineSized\<close> (here \<open>sz\<close>) is not
  read by its body.
\<close>

fun largest :: "(crchash \<times> nat) list \<Rightarrow> crchash option \<Rightarrow> nat \<Rightarrow> crchash option \<times> nat" where
  "largest [] chash max_size = (chash, max_size)"
| "largest ((crchash, l) # rest) chash max_size =
     (if l > max_size then largest rest (Some crchash) l
      else largest rest chash max_size)"

text \<open>Python's truth value of \<open>chash\<close>: \<open>None\<close> and the integer 0 are false.\<close>

fun truthy :: "crchash option \<Rightarrow> bool" where
  "truthy None = False"
| "truthy (Some h) = (h \<noteq> 0)"

definition GetLineSized ::
  "(crchash \<times> nat) list \<Rightarrow> int \<Rightarrow> (crchash option \<times> nat) \<times> (crchash \<times> nat) list" where
  "GetLineSized crc_len sz =
     (case largest crc_len None 0 of
        (chash, max_size) \<Rightarrow>
          (if truthy chash then ((chash, max_size), AList.delete (the chash) crc_len)
           else ((chash, max_size), crc_len)))"

subsection \<open>\<open>BlockData\<close>\<close>

definition BlockData_init :: BlockData where
  "BlockData_init = \<lparr>line_data = [], block = []\<rparr>"

definition AddLine :: "BlockData \<Rightarrow> crchash \<Rightarrow> bytes \<Rightarrow> BlockData" where
  "AddLine self linehash bytedata =
     \<lparr>line_data = line_data self
        @ [\<lparr>hash = linehash, offset = length (block self), len = length bytedata\<rparr>],
      block = block self @ bytedata\<rparr>"

text \<open>\<open>bytes(n)\<close> raises \<open>ValueError\<close> for a negative \<open>n\<close>.\<close>

definition Fill :: "BlockData \<Rightarrow> error + BlockData" where
  "Fill self =
     (if length (block self) \<le> BLOCK_SIZE
      then Inr (self\<lparr>block := block self @ replicate (BLOCK_SIZE - length (block self)) 0\<rparr>)
      else Inl ValueError)"

subsection \<open>\<open>Subtitles._createblocks\<close>\<close>

text \<open>
  The first loop: every (name, line) pair of \<open>self.lines\<close> is hashed and encoded, and
  stored under its hash in \<open>crc_line\<close> and, with its length, in \<open>crc_strlen\<close>.
\<close>

fun encode_lines ::
  "(str \<Rightarrow> str) \<Rightarrow> (str \<times> str) list \<Rightarrow> (crchash \<times> bytes) list \<Rightarrow> (crchash \<times> nat) list
     \<Rightarrow> error + ((crchash \<times> bytes) list \<times> (crchash \<times> nat) list)" where
  "encode_lines lower [] crc_line crc_strlen = Inr (crc_line, crc_strlen)"
| "encode_lines lower ((name, line) # rest) crc_line crc_strlen =
     (case encode_utf8 (lower name) of
        Inl e \<Rightarrow> Inl e
      | Inr name_bytes \<Rightarrow>
          (case encode_utf16le line of
             Inl e \<Rightarrow> Inl e
           | Inr line_bytes \<Rightarrow>
               (case pack_h 0 of
                  Inl e \<Rightarrow> Inl e
                | Inr terminator \<Rightarrow>
                    encode_lines lower rest
                      (AList.update (crc32 name_bytes) (line_bytes @ terminator) crc_line)
                      (AList.update (crc32 name_bytes) (length (line_bytes @ terminator))
                         crc_strlen))))"

text \<open>
  The key a name is stored under, \<open>crc32(name.lower().encode())\<close>: the whole 32-bit
  value, as it is computed in the loop above.
\<close>

definition name_hash :: "(str \<Rightarrow> str) \<Rightarrow> str \<Rightarrow> error + crchash" where
  "name_hash lower name =
     (case encode_utf8 (lower name) of Inl e \<Rightarrow> Inl e | Inr name_bytes \<Rightarrow> Inr (crc32 name_bytes))"

text \<open>
  The inner loop \<open>while remaining_size\<close>: it returns the block and what is left of
  \<open>crc_strlen\<close>. It ends when \<open>remaining_size\<close> is 0, or when the hash returned by
  \<open>GetLineSized\<close> is false, after \<open>Fill\<close>.
\<close>

function fill_block ::
  "(crchash \<times> bytes) list \<Rightarrow> (crchash \<times> nat) list \<Rightarrow> BlockData \<Rightarrow> int
     \<Rightarrow> error + (BlockData \<times> (crchash \<times> nat) list)" where
  "fill_block crc_line crc_strlen blk remaining_size =
     (if remaining_size = 0 then Inr (blk, crc_strlen)
      else
        (case GetLineSized crc_strlen remaining_size of
           ((linehash, sz), crc_strlen') \<Rightarrow>
             (if \<not> truthy linehash then
                (case Fill blk of Inl e \<Rightarrow> Inl e | Inr blk' \<Rightarrow> Inr (blk', crc_strlen'))
              else
                (case map_of crc_line (the linehash) of
                   None \<Rightarrow> Inl KeyError
                 | Some line \<Rightarrow>
                     fill_block crc_line crc_strlen' (AddLine blk (the linehash) line)
                       (remaining_size - int sz)))))"
  by pat_completeness auto

termination fill_block
proof -
  have mem: "r = c \<or> (\<exists>h. r = Some h \<and> h \<in> fst ` set d)" if "largest d c m = (r, k)"
    for d c m r k
    using that
  proof (induction d arbitrary: c m)
    case Nil
    then show ?case by simp
  next
    case (Cons p d)
    obtain a l where p: "p = (a, l)" by (cases p)
    show ?case
    proof (cases "l > m")
      case True
      with Cons.prems p have "largest d (Some a) l = (r, k)" by simp
      from Cons.IH[OF this] show ?thesis using p by auto
    next
      case False
      with Cons.prems p have "largest d c m = (r, k)" by simp
      from Cons.IH[OF this] show ?thesis by auto
    qed
  qed
  have less: "length (AList.delete h d) < length d" if "h \<in> fst ` set d"
    for h :: crchash and d :: "(crchash \<times> nat) list"
    using that
  proof (induction d)
    case Nil
    then show ?case by simp
  next
    case (Cons p d)
    show ?case
    proof (cases "fst p = h")
      case True
      have "length (AList.delete h d) \<le> length d" by (rule length_delete_le)
      with True show ?thesis by (cases p) simp
    next
      case False
      with Cons.prems have "h \<in> fst ` set d" by auto
      from Cons.IH[OF this] False show ?thesis by (cases p) auto
    qed
  qed
  have dec: "length (snd (GetLineSized d s)) < length d" if "truthy (fst (fst (GetLineSized d s)))"
    for d s
  proof -
    obtain r k where lk: "largest d None 0 = (r, k)" by (cases "largest d None 0")
    have t: "truthy r"
    proof (rule ccontr)
      assume "\<not> truthy r"
      with lk have "GetLineSized d s = ((r, k), d)" by (simp add: GetLineSized_def)
      with that \<open>\<not> truthy r\<close> show False by simp
    qed
    then obtain h where "r = Some h" by (cases r) auto
    with mem[OF lk] have "h \<in> fst ` set d" by auto
    from less[OF this] lk t \<open>r = Some h\<close> show ?thesis by (simp add: GetLineSized_def)
  qed
  show ?thesis
    apply (relation "measure (\<lambda>(crc_line, crc_strlen, blk, remaining_size). length crc_strlen)")
     apply simp
    subgoal premises prems for crc_line crc_strlen blk remaining_size x y xa ya x2
    proof -
      from prems(2,3) have "GetLineSized crc_strlen remaining_size = ((xa, ya), y)" by simp
      then have "fst (fst (GetLineSized crc_strlen remaining_size)) = xa"
        and "snd (GetLineSized crc_strlen remaining_size) = y" by simp_all
      with prems(4) dec[of crc_strlen remaining_size] show ?thesis by simp
    qed
    done
qed

declare fill_block.simps [simp del]

text \<open>
  The outer loop \<open>while len(crc_strlen)\<close>. It need not end, so it is a partial
  function: \<open>None\<close> is the run that never returns.
\<close>

partial_function (option) pack_blocks ::
  "(crchash \<times> bytes) list \<Rightarrow> (crchash \<times> nat) list \<Rightarrow> BlockData list
     \<Rightarrow> (error + BlockData list) option" where
  "pack_blocks crc_line crc_strlen blocks =
     (if length crc_strlen = 0 then Some (Inr blocks)
      else
        (case fill_block crc_line crc_strlen BlockData_init 8192 of
           Inl e \<Rightarrow> Some (Inl e)
         | Inr (blk, crc_strlen') \<Rightarrow> pack_blocks crc_line crc_strlen' (blocks @ [blk])))"

declare pack_blocks.simps [code]

text \<open>
  \<open>self.lines\<close> is the argument \<open>lines\<close>, a \<open>dict\<close> from names to texts: the list of
  its items in insertion order, whose names are distinct.
\<close>

definition createblocks ::
  "(str \<Rightarrow> str) \<Rightarrow> (str \<times> str) list \<Rightarrow> (error + BlockData list) option" where
  "createblocks lower lines =
     (case encode_lines lower lines [] [] of
        Inl e \<Rightarrow> Some (Inl e)
      | Inr (crc_line, crc_strlen) \<Rightarrow> pack_blocks crc_line crc_strlen [])"

subsection \<open>\<open>Subtitles._createdirectory\<close>\<close>

text \<open>The inner loop over \<open>block.line_data\<close>, for the block of index \<open>i\<close>.\<close>

fun directory_lines :: "nat \<Rightarrow> LineData list \<Rightarrow> bytes \<Rightarrow> error + bytes" where
  "directory_lines i [] directory = Inr directory"
| "directory_lines i (linedata # rest) directory =
     (case pack_I (unat (hash linedata)) of
        Inl e \<Rightarrow> Inl e
      | Inr b1 \<Rightarrow>
          (case pack_I i of
             Inl e \<Rightarrow> Inl e
           | Inr b2 \<Rightarrow>
               (case pack_H (offset linedata) of
                  Inl e \<Rightarrow> Inl e
                | Inr b3 \<Rightarrow>
                    (case pack_H (len linedata) of
                       Inl e \<Rightarrow> Inl e
                     | Inr b4 \<Rightarrow>
                         directory_lines i rest ((((directory @ b1) @ b2) @ b3) @ b4)))))"

text \<open>The outer loop \<open>for i in range(len(blocks))\<close>, from index \<open>i\<close> on.\<close>

fun directory_blocks :: "nat \<Rightarrow> BlockData list \<Rightarrow> bytes \<Rightarrow> error + bytes" where
  "directory_blocks i [] directory = Inr directory"
| "directory_blocks i (blk # rest) directory =
     (case directory_lines i (line_data blk) directory of
        Inl e \<Rightarrow> Inl e
      | Inr directory' \<Rightarrow> directory_blocks (Suc i) rest directory')"

definition createdirectory :: "BlockData list \<Rightarrow> error + bytes" where
  "createdirectory blocks = directory_blocks 0 blocks []"

subsection \<open>\<open>Subtitles.serialize\<close>\<close>

text \<open>
  \<open>offset - cur_len\<close> is positive, so the truncating subtraction of \<open>nat\<close> is the
  subtraction of the source.
\<close>

definition serialize :: "(str \<Rightarrow> str) \<Rightarrow> (str \<times> str) list \<Rightarrow> (error + bytes) option" where
  "serialize lower lines =
     (case createblocks lower lines of
        None \<Rightarrow> None
      | Some (Inl e) \<Rightarrow> Some (Inl e)
      | Some (Inr blocks) \<Rightarrow>
          Some
            (case createdirectory blocks of
               Inl e \<Rightarrow> Inl e
             | Inr directory \<Rightarrow>
                 (case pack_i VERSION of
                    Inl e \<Rightarrow> Inl e
                  | Inr version \<Rightarrow>
                      (case pack_i (int (length blocks)) of
                         Inl e \<Rightarrow> Inl e
                       | Inr block_count \<Rightarrow>
                           (case pack_i (int BLOCK_SIZE) of
                              Inl e \<Rightarrow> Inl e
                            | Inr block_size \<Rightarrow>
                                (case pack_i (int (length lines)) of
                                   Inl e \<Rightarrow> Inl e
                                 | Inr entry_count \<Rightarrow>
                                     (let file = (((MAGIC_KEYWORD @ version) @ block_count)
                                                    @ block_size) @ entry_count;
                                          cur_len = length file + (length directory + 4);
                                          offset = (cur_len div 512 + 1) * 512
                                      in (case pack_i (int offset) of
                                            Inl e \<Rightarrow> Inl e
                                          | Inr first_block \<Rightarrow>
                                              Inr ((((file @ first_block) @ directory)
                                                     @ replicate (offset - cur_len) 0)
                                                   @ concat (map block blocks))))))))))"

section \<open>Properties of blocks\<close>

text \<open>The bytes of a block that a placement record points at.\<close>

definition payload_at :: "BlockData \<Rightarrow> LineData \<Rightarrow> bytes" where
  "payload_at blk ld = take (len ld) (drop (offset ld) (block blk))"

text \<open>
  Every placement record of the block lies inside the buffer and points at the whole
  payload that \<open>crc_line\<close> holds for its hash.
\<close>

definition holds_payloads :: "(crchash \<times> bytes) list \<Rightarrow> BlockData \<Rightarrow> bool" where
  "holds_payloads crc_line blk =
     list_all (\<lambda>ld. offset ld + len ld \<le> length (block blk)
                  \<and> map_of crc_line (hash ld) = Some (payload_at blk ld)) (line_data blk)"

text \<open>The placement records follow one another from offset \<open>off\<close> without gap or overlap.\<close>

fun contiguous :: "nat \<Rightarrow> LineData list \<Rightarrow> bool" where
  "contiguous off [] = True"
| "contiguous off (ld # lds) = (offset ld = off \<and> contiguous (off + len ld) lds)"

text \<open>The number of payload bytes written into a block.\<close>

definition payload_bytes :: "BlockData \<Rightarrow> nat" where
  "payload_bytes blk = sum_list (map len (line_data blk))"

text \<open>\<open>crc_strlen\<close> holds, for each of its hashes, the length of the payload in \<open>crc_line\<close>.\<close>

definition lengths_agree :: "(crchash \<times> bytes) list \<Rightarrow> (crchash \<times> nat) list \<Rightarrow> bool" where
  "lengths_agree crc_line crc_strlen =
     list_all (\<lambda>(h, n). case map_of crc_line h of None \<Rightarrow> False | Some p \<Rightarrow> length p = n)
       crc_strlen"

definition lens_of :: "(crchash \<times> bytes) list \<Rightarrow> (crchash \<times> nat) list" where
  "lens_of crc_line = map (\<lambda>(h, p). (h, length p)) crc_line"

text \<open>A block while it is being packed: nothing but payloads, one after the other.\<close>

definition packed :: "(crchash \<times> bytes) list \<Rightarrow> BlockData \<Rightarrow> bool" where
  "packed cl blk = (holds_payloads cl blk \<and> contiguous 0 (line_data blk)
                     \<and> payload_bytes blk = length (block blk))"

text \<open>
  A block of the result: its payloads, whole and one after the other, at most
  \<open>BLOCK_SIZE\<close> bytes of them, then zeros up to \<open>BLOCK_SIZE\<close>.
\<close>

definition finished :: "(crchash \<times> bytes) list \<Rightarrow> BlockData \<Rightarrow> bool" where
  "finished cl blk = (holds_payloads cl blk \<and> contiguous 0 (line_data blk)
      \<and> payload_bytes blk \<le> BLOCK_SIZE \<and> length (block blk) = BLOCK_SIZE
      \<and> drop (payload_bytes blk) (block blk) = replicate (BLOCK_SIZE - payload_bytes blk) 0)"

text \<open>The hashes of all placement records, in block order and then placement order.\<close>

definition placed_hashes :: "BlockData list \<Rightarrow> crchash list" where
  "placed_hashes blocks = concat (map (\<lambda>blk. map hash (line_data blk)) blocks)"

section \<open>Reading the output\<close>

text \<open>The unsigned value of the four bytes at position \<open>pos\<close> of the file.\<close>

definition header_field :: "nat \<Rightarrow> bytes \<Rightarrow> nat" where
  "header_field pos file = le_nat (take 4 (drop pos file))"

section \<open>The directory as the format describes it\<close>

text \<open>
  One record of the directory: the hash, the index of the owning block, the offset of
  the payload in the block and the length of the payload, as unsigned little-endian
  integers of 4, 4, 2 and 2 bytes.
\<close>

definition DirectoryRecord :: "nat \<Rightarrow> LineData \<Rightarrow> bytes" where
  "DirectoryRecord i ld =
     le_bytes 4 (unat (hash ld)) @ le_bytes 4 i @ le_bytes 2 (offset ld) @ le_bytes 2 (len ld)"

text \<open>
  The placement records of the blocks, each with the index of its block, in block order
  and then in the order of placement; the first block has index \<open>i\<close>.
\<close>

definition placements_from :: "nat \<Rightarrow> BlockData list \<Rightarrow> (nat \<times> LineData) list" where
  "placements_from i blocks =
     concat (map (\<lambda>(j, blk). map (Pair j) (line_data blk)) (enumerate i blocks))"

definition placements :: "BlockData list \<Rightarrow> (nat \<times> LineData) list" where
  "placements blocks = placements_from 0 blocks"

definition spec_directory :: "BlockData list \<Rightarrow> bytes" where
  "spec_directory blocks = concat (map (\<lambda>(i, ld). DirectoryRecord i ld) (placements blocks))"

text \<open>Reading \<open>k\<close> records of 12 bytes back: hash, block index, offset and length.\<close>

fun read_records :: "nat \<Rightarrow> bytes \<Rightarrow> (nat \<times> nat \<times> nat \<times> nat) list" where
  "read_records 0 bs = []"
| "read_records (Suc k) bs =
     (le_nat (take 4 bs), le_nat (take 4 (drop 4 bs)), le_nat (take 2 (drop 8 bs)),
      le_nat (take 2 (drop 10 bs))) # read_records k (drop 12 bs)"

section \<open>Auxiliary lemmas\<close>

subsection \<open>The packing loops\<close>

lemma largest_result:
  "largest d c m = (r, k) \<Longrightarrow> (r = c \<and> k = m) \<or> (\<exists>h. r = Some h \<and> (h, k) \<in> set d)"
proof (induction d arbitrary: c m)
  case Nil
  then show ?case by simp
next
  case (Cons p d)
  obtain a l where p: "p = (a, l)" by (cases p)
  show ?case
  proof (cases "l > m")
    case True
    with Cons.prems p have "largest d (Some a) l = (r, k)" by simp
    from Cons.IH[OF this] show ?thesis using p by auto
  next
    case False
    with Cons.prems p have "largest d c m = (r, k)" by simp
    from Cons.IH[OF this] show ?thesis by auto
  qed
qed

lemma GetLineSized_cases:
  assumes "GetLineSized crc_len sz = ((linehash, n), crc_len')"
  shows "(\<not> truthy linehash \<and> crc_len' = crc_len)
       \<or> (\<exists>h. linehash = Some h \<and> h \<noteq> 0 \<and> (h, n) \<in> set crc_len \<and> crc_len' = AList.delete h crc_len)"
proof -
  obtain r k where lk: "largest crc_len None 0 = (r, k)" by (cases "largest crc_len None 0")
  show ?thesis
  proof (cases "truthy r")
    case False
    with lk assms show ?thesis by (simp add: GetLineSized_def)
  next
    case True
    then obtain h where h: "r = Some h" "h \<noteq> 0" by (cases r) auto
    from largest_result[OF lk] h have "(h, k) \<in> set crc_len" by auto
    with lk assms True h show ?thesis by (auto simp: GetLineSized_def)
  qed
qed

lemma mset_keys_delete:
  "distinct (map fst d) \<Longrightarrow> (h, n) \<in> set d \<Longrightarrow>
     add_mset h (mset (map fst (AList.delete h d))) = mset (map fst d)"
proof (induction d)
  case Nil
  then show ?case by simp
next
  case (Cons p d)
  show ?case
  proof (cases "fst p = h")
    case True
    with Cons.prems have "h \<notin> fst ` set d" by auto
    then have "AList.delete h d = d" by (simp add: delete_id)
    with True show ?thesis by (cases p) simp
  next
    case False
    with Cons.prems have "(h, n) \<in> set d" "distinct (map fst d)" by auto
    from Cons.IH[OF this(2) this(1)] False show ?thesis by (cases p) auto
  qed
qed

lemma lengths_agree_delete:
  "lengths_agree cl d \<Longrightarrow> lengths_agree cl (AList.delete h d)"
  by (auto simp: lengths_agree_def list_all_iff AList.delete_eq)

lemma lengths_agree_lookup:
  "lengths_agree cl d \<Longrightarrow> (h, n) \<in> set d \<Longrightarrow> \<exists>p. map_of cl h = Some p \<and> length p = n"
  by (auto simp: lengths_agree_def list_all_iff split: option.splits)

lemma contiguous_snoc:
  "contiguous off (lds @ [ld]) = (contiguous off lds \<and> offset ld = off + sum_list (map len lds))"
  by (induction lds arbitrary: off) (auto simp: add.assoc)

lemma packed_init: "packed cl BlockData_init"
  by (simp add: packed_def holds_payloads_def payload_bytes_def BlockData_init_def)

lemma packed_AddLine:
  assumes "packed cl blk" "map_of cl h = Some p"
  shows "packed cl (AddLine blk h p)"
  using assms
  by (auto simp: packed_def holds_payloads_def payload_bytes_def AddLine_def contiguous_snoc
      payload_at_def list_all_iff)

lemma length_AddLine: "length (block (AddLine blk h p)) = length (block blk) + length p"
  by (simp add: AddLine_def)

lemma hashes_AddLine: "map hash (line_data (AddLine blk h p)) = map hash (line_data blk) @ [h]"
  by (simp add: AddLine_def)

lemma Fill_finished:
  assumes "packed cl blk" "Fill blk = Inr blk'"
  shows "finished cl blk' \<and> line_data blk' = line_data blk"
proof -
  from assms(2) have le: "length (block blk) \<le> BLOCK_SIZE"
    and blk': "blk' = blk\<lparr>block := block blk @ replicate (BLOCK_SIZE - length (block blk)) 0\<rparr>"
    by (auto simp: Fill_def split: if_splits)
  have "payload_at blk' ld = payload_at blk ld \<and> offset ld + len ld \<le> length (block blk')"
    if "offset ld + len ld \<le> length (block blk)" for ld
    using that le by (simp add: blk' payload_at_def)
  with assms(1) have "holds_payloads cl blk'"
    by (auto simp: packed_def holds_payloads_def list_all_iff blk')
  with assms(1) le show ?thesis
    by (simp add: packed_def finished_def payload_bytes_def blk')
qed

lemma packed_full_finished:
  assumes "packed cl blk" "length (block blk) = BLOCK_SIZE"
  shows "finished cl blk"
  using assms by (simp add: packed_def finished_def)

lemma fill_block_Inr:
  assumes "fill_block cl cs blk r = Inr (blk', cs')"
    and "lengths_agree cl cs" "distinct (map fst cs)" "packed cl blk"
    and "int (length (block blk)) = 8192 - r"
  shows "finished cl blk' \<and> lengths_agree cl cs' \<and> distinct (map fst cs')
       \<and> mset (map hash (line_data blk')) + mset (map fst cs')
           = mset (map hash (line_data blk)) + mset (map fst cs)"
  using assms
proof (induction cl cs blk r rule: fill_block.induct)
  case (1 cl cs blk r)
  show ?case
  proof (cases "r = 0")
    case True
    with "1.prems" have "blk' = blk" "cs' = cs" by (simp_all add: fill_block.simps)
    moreover from True "1.prems"(5) have "length (block blk) = BLOCK_SIZE"
      by (simp add: BLOCK_SIZE_def)
    ultimately show ?thesis using "1.prems" packed_full_finished by simp
  next
    case False
    obtain lh n cs1 where g: "GetLineSized cs r = ((lh, n), cs1)"
      by (cases "GetLineSized cs r") auto
    from GetLineSized_cases[OF g] show ?thesis
    proof (elim disjE conjE exE)
      assume nt: "\<not> truthy lh" and eq: "cs1 = cs"
      with False g "1.prems"(1) have f: "Fill blk = Inr blk'" and "cs' = cs"
        by (auto simp: fill_block.simps[of cl cs blk r] split: sum.splits)
      with Fill_finished[OF "1.prems"(4) f] "1.prems" show ?thesis by simp
    next
      fix h
      assume h: "lh = Some h" "h \<noteq> 0" "(h, n) \<in> set cs" "cs1 = AList.delete h cs"
      from lengths_agree_lookup[OF "1.prems"(2) h(3)] obtain p
        where p: "map_of cl h = Some p" "length p = n" by auto
      from False g h p "1.prems"(1)
      have rec: "fill_block cl cs1 (AddLine blk h p) (r - int n) = Inr (blk', cs')"
        by (simp add: fill_block.simps[of cl cs blk r])
      have tr: "\<not> \<not> truthy lh" using h by simp
      have a: "lengths_agree cl cs1" using h "1.prems"(2) by (simp add: lengths_agree_delete)
      have b: "distinct (map fst cs1)" using h "1.prems"(3) by (simp add: distinct_delete)
      have c: "packed cl (AddLine blk h p)" by (rule packed_AddLine[OF "1.prems"(4) p(1)])
      have d: "int (length (block (AddLine blk h p))) = 8192 - (r - int n)"
        using "1.prems"(5) p(2) by (simp add: length_AddLine)
      have mp: "map_of cl (the lh) = Some p" using h p by simp
      have ih: "finished cl blk' \<and> lengths_agree cl cs' \<and> distinct (map fst cs')
        \<and> mset (map hash (line_data blk')) + mset (map fst cs')
           = mset (map hash (line_data (AddLine blk h p))) + mset (map fst cs1)"
        using "1.IH"[OF False g[symmetric] refl tr mp] rec a b c d h by simp
      moreover have "add_mset h (mset (map fst cs1)) = mset (map fst cs)"
        using mset_keys_delete[OF "1.prems"(3) h(3)] h(4) by simp
      ultimately show ?thesis by (simp add: hashes_AddLine)
    qed
  qed
qed

lemma lens_of_update: "lens_of (AList.update k v d) = AList.update k (length v) (lens_of d)"
  by (induction d) (auto simp: lens_of_def)

lemma keys_lens_of: "map fst (lens_of d) = map fst d"
  by (induction d) (auto simp: lens_of_def)

lemma lengths_agree_lens_of:
  assumes "distinct (map fst d)"
  shows "lengths_agree d (lens_of d)"
proof -
  have "map_of d h = Some p" if "(h, p) \<in> set d" for h p
    using assms that by simp
  then show ?thesis
    by (auto simp: lengths_agree_def lens_of_def list_all_iff)
qed

lemma encode_lines_Inr:
  assumes "encode_lines lower lines cl cs = Inr (cl', cs')"
    and "cs = lens_of cl" "distinct (map fst cl)"
  shows "cs' = lens_of cl' \<and> distinct (map fst cl')"
  using assms
proof (induction lines arbitrary: cl cs)
  case Nil
  then show ?case by auto
next
  case (Cons a lines)
  obtain name line where a: "a = (name, line)" by (cases a)
  from Cons.prems(1) a obtain nb lb t where
    e: "encode_utf8 (lower name) = Inr nb" "encode_utf16le line = Inr lb" "pack_h 0 = Inr t"
    and rec: "encode_lines lower lines (AList.update (crc32 nb) (lb @ t) cl)
                (AList.update (crc32 nb) (length (lb @ t)) cs) = Inr (cl', cs')"
    by (auto split: sum.splits)
  show ?case
    by (rule Cons.IH[OF rec])
       (simp_all add: lens_of_update Cons.prems distinct_update)
qed

lemma pack_blocks_Inr:
  assumes "pack_blocks cl cs blocks = Some (Inr out)"
    and "lengths_agree cl cs" "distinct (map fst cs)"
  shows "\<exists>new. out = blocks @ new \<and> list_all (finished cl) new
           \<and> mset (placed_hashes new) = mset (map fst cs)"
proof -
  have "\<forall>out. y = Inr out \<longrightarrow> lengths_agree cl cs \<longrightarrow> distinct (map fst cs) \<longrightarrow>
          (\<exists>new. out = blocks @ new \<and> list_all (finished cl) new
             \<and> mset (placed_hashes new) = mset (map fst cs))"
    if "pack_blocks cl cs blocks = Some y" for y
    using that
  proof (induction cl cs blocks y rule: pack_blocks.raw_induct[rotated 1, consumes 1, case_names step])
    case (step pack_blocks' cl cs blocks y)
    show ?case
    proof (intro allI impI)
      fix out
      assume y: "y = Inr out" and la: "lengths_agree cl cs" and di: "distinct (map fst cs)"
      show "\<exists>new. out = blocks @ new \<and> list_all (finished cl) new
             \<and> mset (placed_hashes new) = mset (map fst cs)"
      proof (cases "length cs = 0")
        case True
        with step.hyps y have "out = blocks" by simp
        with True show ?thesis by (simp add: placed_hashes_def)
      next
        case False
        with step.hyps y obtain blk cs1 where
          f: "fill_block cl cs BlockData_init 8192 = Inr (blk, cs1)"
          and r: "pack_blocks' cl cs1 (blocks @ [blk]) = Some (Inr out)"
          by (auto split: sum.splits)
        from fill_block_Inr[OF f la di packed_init]
        have fb: "finished cl blk" "lengths_agree cl cs1" "distinct (map fst cs1)"
          "mset (map hash (line_data blk)) + mset (map fst cs1) = mset (map fst cs)"
          by (simp_all add: BlockData_init_def)
        from step.IH[OF r] fb obtain new where
          new: "out = (blocks @ [blk]) @ new" "list_all (finished cl) new"
            "mset (placed_hashes new) = mset (map fst cs1)"
          by blast
        have "out = blocks @ (blk # new)" using new(1) by simp
        moreover have "list_all (finished cl) (blk # new)" using fb(1) new(2) by simp
        moreover have "mset (placed_hashes (blk # new)) = mset (map fst cs)"
          using new(3) fb(4) by (simp add: placed_hashes_def)
        ultimately show ?thesis by blast
      qed
    qed
  qed
  with assms show ?thesis by blast
qed

lemma createblocks_Inr:
  assumes "createblocks lower lines = Some (Inr blocks)"
  shows "\<exists>cl. encode_lines lower lines [] [] = Inr (cl, lens_of cl)
           \<and> distinct (map fst cl)
           \<and> list_all (finished cl) blocks
           \<and> mset (placed_hashes blocks) = mset (map fst cl)"
proof -
  from assms obtain cl cs where e: "encode_lines lower lines [] [] = Inr (cl, cs)"
    and p: "pack_blocks cl cs [] = Some (Inr blocks)"
    by (auto simp: createblocks_def split: sum.splits)
  from encode_lines_Inr[OF e] have cs: "cs = lens_of cl" and d: "distinct (map fst cl)"
    by (simp_all add: lens_of_def)
  from pack_blocks_Inr[OF p] cs d lengths_agree_lens_of[OF d]
  have "list_all (finished cl) blocks \<and> mset (placed_hashes blocks) = mset (map fst cl)"
    by (auto simp: keys_lens_of)
  with e cs d show ?thesis by blast
qed

subsection \<open>Packing integers\<close>

lemma length_le_bytes [simp]: "length (le_bytes n x) = n"
  by (induction n arbitrary: x) auto

lemma le_nat_le_bytes: "le_nat (le_bytes n x) = x mod 256 ^ n"
proof (induction n arbitrary: x)
  case 0
  then show ?case by simp
next
  case (Suc n)
  have "unat (of_nat (x mod 256) :: byte) = x mod 256"
    by (simp add: unat_of_nat)
  then show ?case
    by (simp add: Suc mod_mult2_eq)
qed

lemma pack_i_Inr:
  assumes "pack_i (int n) = Inr bs"
  shows "bs = le_bytes 4 n \<and> n < 2 ^ 31 \<and> length bs = 4 \<and> le_nat bs = n"
proof -
  from assms have r: "int n < 2 ^ 31" and bs: "bs = le_bytes 4 (nat (int n mod 2 ^ 32))"
    by (auto simp: pack_i_def split: if_splits)
  from r have n: "n < 2 ^ 31" by (simp add: of_nat_less_numeral_power_cancel_iff)
  then have "int n mod 2 ^ 32 = int n" by simp
  with bs have b: "bs = le_bytes 4 n" by simp
  have "n mod 256 ^ 4 = n" using n by simp
  with b n show ?thesis by (simp add: length_le_bytes le_nat_le_bytes)
qed

lemma pack_i_VERSION: "pack_i VERSION = Inr (le_bytes 4 1)"
  by (simp add: pack_i_def VERSION_def)

lemma pack_blocks_Nil: "pack_blocks cl [] blocks = Some (Inr blocks)"
  by (subst pack_blocks.simps) simp

subsection \<open>The layout of the output\<close>

lemma serialize_Inr:
  assumes "serialize lower lines = Some (Inr file)"
  shows "\<exists>blocks directory.
      createblocks lower lines = Some (Inr blocks) \<and> createdirectory blocks = Inr directory
    \<and> file = MAGIC_KEYWORD @ le_bytes 4 1 @ le_bytes 4 (length blocks) @ le_bytes 4 8192
         @ le_bytes 4 (length lines)
         @ le_bytes 4 (((24 + length directory) div 512 + 1) * 512) @ directory
         @ replicate (((24 + length directory) div 512 + 1) * 512 - (24 + length directory)) 0
         @ concat (map block blocks)
    \<and> length blocks < 2 ^ 31 \<and> length lines < 2 ^ 31
    \<and> ((24 + length directory) div 512 + 1) * 512 < 2 ^ 31"
proof -
  from assms obtain blocks where cb: "createblocks lower lines = Some (Inr blocks)"
    by (auto simp: serialize_def split: option.splits sum.splits)
  with assms obtain directory version block_count block_size entry_count first where
    cd: "createdirectory blocks = Inr directory"
    and p1: "pack_i VERSION = Inr version"
    and p2: "pack_i (int (length blocks)) = Inr block_count"
    and p3: "pack_i (int BLOCK_SIZE) = Inr block_size"
    and p4: "pack_i (int (length lines)) = Inr entry_count"
    and p5: "pack_i (int ((((length ((((MAGIC_KEYWORD @ version) @ block_count) @ block_size)
                 @ entry_count) + (length directory + 4)) div 512 + 1) * 512))) = Inr first"
    and f: "file = ((((((((MAGIC_KEYWORD @ version) @ block_count) @ block_size) @ entry_count)
              @ first) @ directory)
              @ replicate ((((length ((((MAGIC_KEYWORD @ version) @ block_count) @ block_size)
                 @ entry_count) + (length directory + 4)) div 512 + 1) * 512)
                 - (length ((((MAGIC_KEYWORD @ version) @ block_count) @ block_size)
                 @ entry_count) + (length directory + 4))) 0)
              @ concat (map block blocks))"
    by (auto simp: serialize_def Let_def split: sum.splits)
  from p1 have v: "version = le_bytes 4 1" "length version = 4"
    by (auto simp: pack_i_VERSION length_le_bytes)
  from pack_i_Inr[OF p2] have b: "block_count = le_bytes 4 (length blocks)" "length block_count = 4"
    and r1: "length blocks < 2 ^ 31"
    by simp_all
  from p3 have "pack_i (int 8192) = Inr block_size" by (simp add: BLOCK_SIZE_def)
  from pack_i_Inr[OF this] have s: "block_size = le_bytes 4 8192" "length block_size = 4"
    by simp_all
  from pack_i_Inr[OF p4] have e: "entry_count = le_bytes 4 (length lines)" "length entry_count = 4"
    and r2: "length lines < 2 ^ 31"
    by simp_all
  have len: "length ((((MAGIC_KEYWORD @ version) @ block_count) @ block_size) @ entry_count)
        + (length directory + 4) = 24 + length directory"
    using v b s e by (simp add: MAGIC_KEYWORD_def)
  from p5 have p5': "pack_i (int (((24 + length directory) div 512 + 1) * 512)) = Inr first"
    unfolding len .
  from pack_i_Inr[OF p5'] have o: "first = le_bytes 4 (((24 + length directory) div 512 + 1) * 512)"
    and r3: "((24 + length directory) div 512 + 1) * 512 < 2 ^ 31"
    by simp_all
  have "file = MAGIC_KEYWORD @ le_bytes 4 1 @ le_bytes 4 (length blocks) @ le_bytes 4 8192
         @ le_bytes 4 (length lines)
         @ le_bytes 4 (((24 + length directory) div 512 + 1) * 512) @ directory
         @ replicate (((24 + length directory) div 512 + 1) * 512 - (24 + length directory)) 0
         @ concat (map block blocks)"
    unfolding f len by (simp add: v b s e o)
  with cb cd r1 r2 r3 show ?thesis by blast
qed

lemma concat_slice:
  assumes "\<forall>b\<in>set xs. length b = n" "i < length xs"
  shows "take n (drop (n * i) (concat xs)) = xs ! i"
  using assms
proof (induction xs arbitrary: i)
  case Nil
  then show ?case by simp
next
  case (Cons b xs)
  show ?case
  proof (cases i)
    case 0
    with Cons.prems show ?thesis by simp
  next
    case (Suc j)
    with Cons.prems have "take n (drop (n * j) (concat xs)) = xs ! j"
      by (intro Cons.IH) auto
    with Suc Cons.prems show ?thesis by simp
  qed
qed

lemma length_concat_blocks:
  "\<forall>b\<in>set xs. length b = n \<Longrightarrow> length (concat xs) = n * length xs"
  by (induction xs) auto

lemma header_field_20:
  "header_field 20 (MAGIC_KEYWORD @ le_bytes 4 a @ le_bytes 4 b @ le_bytes 4 c @ le_bytes 4 d
      @ le_bytes 4 e @ rest) = e mod 2 ^ 32"
  by (simp add: header_field_def MAGIC_KEYWORD_def le_nat_le_bytes)

lemma header_field_8:
  "header_field 8 (MAGIC_KEYWORD @ le_bytes 4 a @ le_bytes 4 b @ rest) = b mod 2 ^ 32"
  by (simp add: header_field_def MAGIC_KEYWORD_def le_nat_le_bytes)

lemma header_field_16:
  "header_field 16 (MAGIC_KEYWORD @ le_bytes 4 a @ le_bytes 4 b @ le_bytes 4 c @ le_bytes 4 d
      @ rest) = d mod 2 ^ 32"
  by (simp add: header_field_def MAGIC_KEYWORD_def le_nat_le_bytes)

lemma header_block_count:
  assumes "serialize lower lines = Some (Inr file)" "createblocks lower lines = Some (Inr blocks)"
  shows "header_field 8 file = length blocks"
proof -
  from serialize_Inr[OF assms(1)] assms(2) obtain rest where
    f: "file = MAGIC_KEYWORD @ le_bytes 4 1 @ le_bytes 4 (length blocks) @ rest"
    and r1: "length blocks < 2 ^ 31"
    by auto
  have "header_field 8 file = length blocks mod 2 ^ 32"
    by (simp only: f header_field_8)
  with r1 show "header_field 8 file = length blocks" by simp
qed

lemma block_slice:
  assumes len: "\<forall>b\<in>set (map block blocks). length b = 8192"
    and dr: "drop off file = concat (map block blocks)" and "i < length blocks"
  shows "take 8192 (drop (off + 8192 * i) file) = block (blocks ! i)"
proof -
  have "drop (off + 8192 * i) file = drop (8192 * i) (drop off file)"
    by (simp add: add.commute)
  with dr concat_slice[OF len, of i] assms(3) show ?thesis by simp
qed

subsection \<open>Evaluating the loops\<close>

lemma pack_i_nat: "n < 2 ^ 31 \<Longrightarrow> pack_i (int n) = Inr (le_bytes 4 n)"
proof -
  assume "n < 2 ^ 31"
  then have "int n < 2 ^ 31" by (simp add: of_nat_less_numeral_power_cancel_iff)
  then show ?thesis by (simp add: pack_i_def)
qed

lemma serialize_eval:
  assumes "createblocks lower lines = Some (Inr blocks)" "createdirectory blocks = Inr directory"
    and "length blocks < 2 ^ 31" "length lines < 2 ^ 31"
    and "((24 + length directory) div 512 + 1) * 512 < 2 ^ 31"
  shows "serialize lower lines = Some (Inr (MAGIC_KEYWORD @ le_bytes 4 1
         @ le_bytes 4 (length blocks) @ le_bytes 4 8192 @ le_bytes 4 (length lines)
         @ le_bytes 4 (((24 + length directory) div 512 + 1) * 512) @ directory
         @ replicate (((24 + length directory) div 512 + 1) * 512 - (24 + length directory)) 0
         @ concat (map block blocks)))"
proof -
  have p3: "pack_i (int BLOCK_SIZE) = Inr (le_bytes 4 8192)"
    using pack_i_nat[of 8192] by (simp add: BLOCK_SIZE_def)
  have len: "length ((((MAGIC_KEYWORD @ le_bytes 4 1) @ le_bytes 4 (length blocks))
                @ le_bytes 4 8192) @ le_bytes 4 (length lines)) + (length directory + 4)
             = 24 + length directory"
    by (simp add: MAGIC_KEYWORD_def)
  have "serialize lower lines = Some (Inr ((((((((MAGIC_KEYWORD @ le_bytes 4 1)
         @ le_bytes 4 (length blocks)) @ le_bytes 4 8192) @ le_bytes 4 (length lines))
         @ le_bytes 4 (((24 + length directory) div 512 + 1) * 512)) @ directory)
         @ replicate (((24 + length directory) div 512 + 1) * 512 - (24 + length directory)) 0)
         @ concat (map block blocks)))"
    unfolding serialize_def
    by (simp only: assms(1,2) option.case sum.case pack_i_VERSION pack_i_nat[OF assms(3)] p3
        pack_i_nat[OF assms(4)] Let_def len pack_i_nat[OF assms(5)])
  then show ?thesis by (simp only: append_assoc)
qed

lemma fill_block_step:
  assumes "r \<noteq> 0" "GetLineSized cs r = ((Some h, n), cs')" "h \<noteq> 0" "map_of cl h = Some p"
  shows "fill_block cl cs blk r = fill_block cl cs' (AddLine blk h p) (r - int n)"
  using assms by (subst fill_block.simps) simp

lemma fill_block_stop:
  assumes "r \<noteq> 0" "GetLineSized cs r = ((lh, n), cs')" "\<not> truthy lh"
  shows "fill_block cl cs blk r = (case Fill blk of Inl e \<Rightarrow> Inl e | Inr blk' \<Rightarrow> Inr (blk', cs'))"
  using assms by (subst fill_block.simps) simp

lemma fill_block_0: "fill_block cl cs blk 0 = Inr (blk, cs)"
  by (subst fill_block.simps) simp

lemma GetLineSized_Nil: "GetLineSized [] r = ((None, 0), [])"
  by (simp add: GetLineSized_def)

lemma GetLineSized_single: "0 < n \<Longrightarrow> h \<noteq> 0 \<Longrightarrow> GetLineSized [(h, n)] r = ((Some h, n), [])"
  by (simp add: GetLineSized_def)

lemma fill_block_single:
  assumes "h \<noteq> 0" "map_of cl h = Some p" "0 < length p" "length p \<le> 8192"
  shows "fill_block cl [(h, length p)] BlockData_init 8192
         = Inr (\<lparr>line_data = [\<lparr>hash = h, offset = 0, len = length p\<rparr>],
                 block = p @ replicate (8192 - length p) 0\<rparr>, [])"
proof -
  have s: "fill_block cl [(h, length p)] BlockData_init 8192
        = fill_block cl [] (AddLine BlockData_init h p) (8192 - int (length p))"
    by (rule fill_block_step[OF _ GetLineSized_single[OF assms(3,1)] assms(1,2)]) simp
  show ?thesis
  proof (cases "length p = 8192")
    case True
    then show ?thesis
      unfolding s by (simp add: fill_block_0 AddLine_def BlockData_init_def)
  next
    case False
    with assms(4) have ne: "8192 - int (length p) \<noteq> 0" by simp
    show ?thesis
      unfolding s fill_block_stop[OF ne GetLineSized_Nil, simplified]
      using assms(4) by (simp add: Fill_def AddLine_def BlockData_init_def BLOCK_SIZE_def)
  qed
qed

lemma pack_blocks_single:
  assumes "h \<noteq> 0" "0 < length p" "length p \<le> 8192"
  shows "pack_blocks [(h, p)] [(h, length p)] []
         = Some (Inr [\<lparr>line_data = [\<lparr>hash = h, offset = 0, len = length p\<rparr>],
                       block = p @ replicate (8192 - length p) 0\<rparr>])"
proof -
  have m: "map_of [(h, p)] h = Some p" by simp
  show ?thesis
    by (subst pack_blocks.simps) (simp add: fill_block_single[OF assms(1) m assms(2,3)] pack_blocks_Nil)
qed

subsection \<open>The directory\<close>

lemma placements_from_Cons:
  "placements_from i (blk # rest) = map (Pair i) (line_data blk) @ placements_from (Suc i) rest"
  by (simp add: placements_from_def)

lemma placements_from_Nil: "placements_from i [] = []"
  by (simp add: placements_from_def)

lemma directory_lines_Inr:
  assumes "directory_lines i lds d = Inr d'"
  shows "d' = d @ concat (map (DirectoryRecord i) lds)
       \<and> (\<forall>ld\<in>set lds. i < 2 ^ 32 \<and> offset ld < 2 ^ 16 \<and> len ld < 2 ^ 16)"
  using assms
proof (induction lds arbitrary: d)
  case Nil
  then show ?case by simp
next
  case (Cons ld lds)
  from Cons.prems obtain b1 b2 b3 b4 where
    p: "pack_I (unat (hash ld)) = Inr b1" "pack_I i = Inr b2"
       "pack_H (offset ld) = Inr b3" "pack_H (len ld) = Inr b4"
    and rec: "directory_lines i lds ((((d @ b1) @ b2) @ b3) @ b4) = Inr d'"
    by (auto split: sum.splits)
  from p have b: "b1 = le_bytes 4 (unat (hash ld))" "b2 = le_bytes 4 i"
      "b3 = le_bytes 2 (offset ld)" "b4 = le_bytes 2 (len ld)"
    and r: "i < 2 ^ 32" "offset ld < 2 ^ 16" "len ld < 2 ^ 16"
    by (auto simp: pack_I_def pack_H_def split: if_splits)
  from Cons.IH[OF rec] b r show ?case by (simp add: DirectoryRecord_def)
qed

lemma directory_blocks_Inr:
  assumes "directory_blocks i blocks d = Inr d'"
  shows "d' = d @ concat (map (\<lambda>(j, ld). DirectoryRecord j ld) (placements_from i blocks))
       \<and> (\<forall>(j, ld)\<in>set (placements_from i blocks).
             j < 2 ^ 32 \<and> offset ld < 2 ^ 16 \<and> len ld < 2 ^ 16)"
  using assms
proof (induction blocks arbitrary: i d)
  case Nil
  then show ?case by (simp add: placements_from_Nil)
next
  case (Cons blk blocks)
  from Cons.prems obtain d1 where l: "directory_lines i (line_data blk) d = Inr d1"
    and rec: "directory_blocks (Suc i) blocks d1 = Inr d'"
    by (auto split: sum.splits)
  from directory_lines_Inr[OF l] Cons.IH[OF rec] show ?case
    by (auto simp: placements_from_Cons comp_def)
qed

lemma length_DirectoryRecord: "length (DirectoryRecord i ld) = 12"
  by (simp add: DirectoryRecord_def)

lemma length_concat_records:
  "length (concat (map (\<lambda>(i, ld). DirectoryRecord i ld) ps)) = 12 * length ps"
  by (induction ps) (auto simp: length_DirectoryRecord)

lemma unat_hash_bound: "unat (h :: crchash) < 2 ^ 32"
  using unsigned_less[of h] by simp

lemma read_DirectoryRecord:
  assumes "i < 2 ^ 32" "offset ld < 2 ^ 16" "len ld < 2 ^ 16"
  shows "le_nat (take 4 (DirectoryRecord i ld @ rest)) = unat (hash ld)"
    and "le_nat (take 4 (drop 4 (DirectoryRecord i ld @ rest))) = i"
    and "le_nat (take 2 (drop 8 (DirectoryRecord i ld @ rest))) = offset ld"
    and "le_nat (take 2 (drop 10 (DirectoryRecord i ld @ rest))) = len ld"
    and "drop 12 (DirectoryRecord i ld @ rest) = rest"
  using assms unat_hash_bound[of "hash ld"]
  by (simp_all add: DirectoryRecord_def le_nat_le_bytes)

lemma read_records_concat:
  assumes "\<forall>(i, ld)\<in>set ps. i < 2 ^ 32 \<and> offset ld < 2 ^ 16 \<and> len ld < 2 ^ 16"
  shows "read_records (length ps) (concat (map (\<lambda>(i, ld). DirectoryRecord i ld) ps))
         = map (\<lambda>(i, ld). (unat (hash ld), i, offset ld, len ld)) ps"
  using assms
proof (induction ps)
  case Nil
  then show ?case by simp
next
  case (Cons p ps)
  obtain i ld where p: "p = (i, ld)" by (cases p)
  with Cons.prems have b: "i < 2 ^ 32" "offset ld < 2 ^ 16" "len ld < 2 ^ 16" by auto
  from Cons.prems have "read_records (length ps) (concat (map (\<lambda>(i, ld). DirectoryRecord i ld) ps))
         = map (\<lambda>(i, ld). (unat (hash ld), i, offset ld, len ld)) ps"
    by (intro Cons.IH) auto
  with read_DirectoryRecord[OF b] p show ?case by simp
qed

lemma directory_lines_eval:
  assumes "\<forall>ld\<in>set lds. i < 2 ^ 32 \<and> offset ld < 2 ^ 16 \<and> len ld < 2 ^ 16"
  shows "directory_lines i lds d = Inr (d @ concat (map (DirectoryRecord i) lds))"
  using assms unat_hash_bound
  by (induction lds arbitrary: d) (simp_all add: pack_I_def pack_H_def DirectoryRecord_def)

lemma directory_blocks_eval:
  assumes "\<forall>(j, ld)\<in>set (placements_from i blocks).
             j < 2 ^ 32 \<and> offset ld < 2 ^ 16 \<and> len ld < 2 ^ 16"
  shows "directory_blocks i blocks d
         = Inr (d @ concat (map (\<lambda>(j, ld). DirectoryRecord j ld) (placements_from i blocks)))"
  using assms
proof (induction blocks arbitrary: i d)
  case Nil
  then show ?case by (simp add: placements_from_Nil)
next
  case (Cons blk blocks)
  from Cons.prems have l: "\<forall>ld\<in>set (line_data blk). i < 2 ^ 32 \<and> offset ld < 2 ^ 16 \<and> len ld < 2 ^ 16"
    by (auto simp: placements_from_Cons)
  from Cons.prems have r: "\<forall>(j, ld)\<in>set (placements_from (Suc i) blocks).
             j < 2 ^ 32 \<and> offset ld < 2 ^ 16 \<and> len ld < 2 ^ 16"
    by (auto simp: placements_from_Cons)
  show ?case
    by (simp add: directory_lines_eval[OF l] Cons.IH[OF r] placements_from_Cons comp_def)
qed

lemma createdirectory_eval:
  assumes "\<forall>(j, ld)\<in>set (placements blocks). j < 2 ^ 32 \<and> offset ld < 2 ^ 16 \<and> len ld < 2 ^ 16"
  shows "createdirectory blocks = Inr (spec_directory blocks)"
  using directory_blocks_eval[of 0 blocks "[]"] assms
  by (simp add: createdirectory_def spec_directory_def placements_def)

subsection \<open>Concrete inputs\<close>

lemma crc_a: "crc32 [97] = 0xE8B7BE43"
  by code_simp
lemma crc_b: "crc32 [98] = 0x71BEEFF9"
  by code_simp
lemma crc_steps_tsniuxo:
  "crc_byte 0xFFFFFFFF 116 = 0x7A95A557"
  "crc_byte 0x7A95A557 115 = 0x3C797174"
  "crc_byte 0x3C797174 110 = 0xFD5E800B"
  "crc_byte 0xFD5E800B 105 = 0xA3415EF4"
  "crc_byte 0xA3415EF4 117 = 0x9A1CF2E8"
  "crc_byte 0x9A1CF2E8 120 = 0xF0958FB6"
  "crc_byte 0xF0958FB6 111 = 0xFFFFFFFF"
  by code_simp+

lemma crc_tsniuxo: "crc32 [116, 115, 110, 105, 117, 120, 111] = 0"
  by (simp add: crc32_def crc_steps_tsniuxo)

lemma le_bytes_2: "le_bytes 2 x = [of_nat (x mod 256), of_nat (x div 256 mod 256)]"
  by (simp add: numeral_2_eq_2)

lemma pack_h_0: "pack_h 0 = Inr [0, 0]"
  by (simp add: pack_h_def le_bytes_2)

lemma utf8_a: "encode_utf8 (ascii_lower (str ''a'')) = Inr [97]"
  by (simp add: str_def ascii_lower_def utf8_char_def)

lemma utf16_Hi: "encode_utf16le (str ''Hi'') = Inr [72, 0, 105, 0]"
  by (simp add: str_def utf16le_char_def le_bytes_2)

lemma encode_a_Hi:
  "encode_lines ascii_lower [(str ''a'', str ''Hi'')] [] []
     = Inr ([(0xE8B7BE43, [72, 0, 105, 0, 0, 0])], [(0xE8B7BE43, 6)])"
  by (simp add: utf8_a crc_a utf16_Hi pack_h_0)

lemma createblocks_a_Hi:
  "createblocks ascii_lower [(str ''a'', str ''Hi'')]
     = Some (Inr [\<lparr>line_data = [\<lparr>hash = 0xE8B7BE43, offset = 0, len = 6\<rparr>],
                   block = [72, 0, 105, 0, 0, 0] @ replicate 8186 0\<rparr>])"
proof -
  have l: "length [72, 0, 105, 0, 0, 0 :: byte] = 6" by simp
  have "pack_blocks [(0xE8B7BE43, [72, 0, 105, 0, 0, 0])] [(0xE8B7BE43, 6)] []
     = Some (Inr [\<lparr>line_data = [\<lparr>hash = 0xE8B7BE43, offset = 0, len = 6\<rparr>],
                   block = [72, 0, 105, 0, 0, 0] @ replicate (8192 - 6) 0\<rparr>])"
    using pack_blocks_single[of "0xE8B7BE43" "[72, 0, 105, 0, 0, 0]", unfolded l] by simp
  then show ?thesis
    unfolding createblocks_def encode_a_Hi by simp
qed

lemma createdirectory_a_Hi:
  "createdirectory [\<lparr>line_data = [\<lparr>hash = 0xE8B7BE43, offset = 0, len = 6\<rparr>],
                   block = [72, 0, 105, 0, 0, 0] @ replicate 8186 0\<rparr>]
     = Inr (DirectoryRecord 0 \<lparr>hash = 0xE8B7BE43, offset = 0, len = 6\<rparr>)"
  by (subst createdirectory_eval)
     (simp_all add: placements_def placements_from_def spec_directory_def)

lemma serialize_a_Hi:
  "serialize ascii_lower [(str ''a'', str ''Hi'')]
     = Some (Inr (MAGIC_KEYWORD @ le_bytes 4 1 @ le_bytes 4 1 @ le_bytes 4 8192 @ le_bytes 4 1
         @ le_bytes 4 512
         @ DirectoryRecord 0 \<lparr>hash = 0xE8B7BE43, offset = 0, len = 6\<rparr>
         @ replicate 476 0
         @ [72, 0, 105, 0, 0, 0] @ replicate 8186 0))"
  by (subst serialize_eval[OF createblocks_a_Hi createdirectory_a_Hi])
     (simp_all add: length_DirectoryRecord)

subsection \<open>Overfull blocks and the hash 0\<close>

lemma length_concat_replicate: "length (concat (replicate n xs)) = n * length xs"
  by (induction n) auto

lemma encode_utf16le_replicate:
  "c < 0xD800 \<Longrightarrow> encode_utf16le (replicate n c) = Inr (concat (replicate n (le_bytes 2 c)))"
  by (induction n) (auto simp: utf16le_char_def)

lemma largest_max:
  "largest d c m = (r, k) \<Longrightarrow> m \<le> k \<and> (\<forall>(h, n)\<in>set d. n \<le> k)"
proof (induction d arbitrary: c m)
  case Nil
  then show ?case by simp
next
  case (Cons p d)
  obtain a l where p: "p = (a, l)" by (cases p)
  show ?case
  proof (cases "l > m")
    case True
    with Cons.prems p have "largest d (Some a) l = (r, k)" by simp
    from Cons.IH[OF this] True p show ?thesis by auto
  next
    case False
    with Cons.prems p have "largest d c m = (r, k)" by simp
    from Cons.IH[OF this] False p show ?thesis by auto
  qed
qed

lemma fill_block_overfull:
  assumes "r < 0" "lengths_agree cl cs" "int (length (block blk)) = 8192 - r"
  shows "fill_block cl cs blk r = Inl ValueError"
  using assms
proof (induction cl cs blk r rule: fill_block.induct)
  case (1 cl cs blk r)
  from "1.prems"(1) have ne: "r \<noteq> 0" by simp
  obtain lh n cs1 where g: "GetLineSized cs r = ((lh, n), cs1)"
    by (cases "GetLineSized cs r") auto
  from GetLineSized_cases[OF g] show ?case
  proof (elim disjE conjE exE)
    assume nt: "\<not> truthy lh"
    from "1.prems"(1,3) have "\<not> length (block blk) \<le> BLOCK_SIZE"
      by (simp add: BLOCK_SIZE_def)
    then have "Fill blk = Inl ValueError" by (simp add: Fill_def)
    then show ?thesis unfolding fill_block_stop[OF ne g nt] by simp
  next
    fix h
    assume h: "lh = Some h" "h \<noteq> 0" "(h, n) \<in> set cs" "cs1 = AList.delete h cs"
    from lengths_agree_lookup[OF "1.prems"(2) h(3)] obtain p
      where p: "map_of cl h = Some p" "length p = n" by auto
    have st: "fill_block cl cs blk r = fill_block cl cs1 (AddLine blk h p) (r - int n)"
      by (rule fill_block_step[OF ne g[unfolded h(1)] h(2) p(1)])
    have tr: "\<not> \<not> truthy lh" using h by simp
    have mp: "map_of cl (the lh) = Some p" using h p by simp
    have a: "r - int n < 0" using "1.prems"(1) by simp
    have b: "lengths_agree cl cs1" using h "1.prems"(2) by (simp add: lengths_agree_delete)
    have c: "int (length (block (AddLine blk h p))) = 8192 - (r - int n)"
      using "1.prems"(3) p(2) by (simp add: length_AddLine)
    from "1.IH"[OF ne g[symmetric] refl tr mp] a b c h
    have "fill_block cl cs1 (AddLine blk h p) (r - int n) = Inl ValueError" by simp
    with st show ?thesis by simp
  qed
qed

lemma pack_blocks_oversized:
  assumes "lengths_agree cl cs" "(h, n) \<in> set cs" "8192 < n" "0 \<notin> fst ` set cs"
  shows "pack_blocks cl cs blocks = Some (Inl ValueError)"
proof -
  obtain lh k cs1 where g: "GetLineSized cs 8192 = ((lh, k), cs1)"
    by (cases "GetLineSized cs 8192") auto
  obtain r k' where lk: "largest cs None 0 = (r, k')" by (cases "largest cs None 0")
  from largest_max[OF lk] assms(2) have k': "n \<le> k'" by auto
  from largest_result[OF lk] k' assms(3) obtain h' where h': "r = Some h'" "(h', k') \<in> set cs"
    by auto
  with assms(4) have nz: "h' \<noteq> 0" by force
  from lk h' nz have g: "GetLineSized cs 8192 = ((Some h', k'), AList.delete h' cs)"
    by (simp add: GetLineSized_def)
  from lengths_agree_lookup[OF assms(1) h'(2)] obtain p
    where p: "map_of cl h' = Some p" "length p = k'" by auto
  have "fill_block cl cs BlockData_init 8192
          = fill_block cl (AList.delete h' cs) (AddLine BlockData_init h' p) (8192 - int k')"
    by (rule fill_block_step[OF _ g nz p(1)]) simp
  also have "\<dots> = Inl ValueError"
  proof (rule fill_block_overfull)
    show "8192 - int k' < 0" using k' assms(3) by simp
    show "lengths_agree cl (AList.delete h' cs)" using assms(1) by (rule lengths_agree_delete)
    show "int (length (block (AddLine BlockData_init h' p))) = 8192 - (8192 - int k')"
      using p(2) by (simp add: length_AddLine BlockData_init_def)
  qed
  finally have f: "fill_block cl cs BlockData_init 8192 = Inl ValueError" .
  from assms(2) have "length cs \<noteq> 0" by auto
  then show ?thesis
    by (subst pack_blocks.simps) (simp add: f)
qed

lemma pack_blocks_hash_zero:
  "pack_blocks cl [(0, n)] blocks = None"
proof -
  have f: "fill_block cl [(0, n)] BlockData_init 8192
        = Inr (BlockData_init\<lparr>block := replicate 8192 0\<rparr>, [(0, n)])"
    for cl :: "(crchash \<times> bytes) list"
  proof -
    have g: "GetLineSized [(0, n)] 8192 = ((if n = 0 then None else Some 0, n), [(0, n)])"
      by (simp add: GetLineSized_def)
    have nt: "\<not> truthy (if n = 0 then None else Some 0)" by simp
    show ?thesis
      unfolding fill_block_stop[OF _ g nt, of cl BlockData_init, simplified]
      by (simp add: Fill_def BlockData_init_def BLOCK_SIZE_def)
  qed
  have "False" if "pack_blocks cl cs blocks = Some y" "cs = [(0, n)]" for cs y
    using that
  proof (induction cl cs blocks y rule: pack_blocks.raw_induct[rotated 1, consumes 1, case_names step])
    case (step pack_blocks' cl cs blocks y)
    from step.hyps step.prems f
    have "pack_blocks' cl [(0, n)] (blocks @ [BlockData_init\<lparr>block := replicate 8192 0\<rparr>]) = Some y"
      by simp
    from step.IH[OF this] show ?case by simp
  qed
  then show ?thesis by (cases "pack_blocks cl [(0, n)] blocks") auto
qed

subsection \<open>Errors and results of the whole conversion\<close>

lemma pack_blocks_step:
  assumes "cs \<noteq> []" "fill_block cl cs BlockData_init 8192 = Inr (blk, cs')"
  shows "pack_blocks cl cs blocks = pack_blocks cl cs' (blocks @ [blk])"
  using assms by (subst pack_blocks.simps) simp

lemma encode_lines_single:
  assumes "encode_utf8 (lower name) = Inr nb" "encode_utf16le line = Inr lb"
  shows "encode_lines lower [(name, line)] [] []
         = Inr ([(crc32 nb, lb @ [0, 0])], [(crc32 nb, length lb + 2)])"
  using assms by (simp add: pack_h_0)

lemma serialize_error:
  "createblocks lower lines = Some (Inl e) \<Longrightarrow> serialize lower lines = Some (Inl e)"
  by (simp add: serialize_def)

lemma serialize_None:
  "createblocks lower lines = None \<Longrightarrow> serialize lower lines = None"
  by (simp add: serialize_def)

lemma createblocks_oversized:
  assumes "encode_lines lower lines [] [] = Inr (cl, cs)"
    and "(h, p) \<in> set cl" "8192 < length p" "0 \<notin> fst ` set cl"
  shows "createblocks lower lines = Some (Inl ValueError)"
proof -
  from encode_lines_Inr[OF assms(1)] have cs: "cs = lens_of cl" and d: "distinct (map fst cl)"
    by (simp_all add: lens_of_def)
  have la: "lengths_agree cl cs" unfolding cs by (rule lengths_agree_lens_of[OF d])
  have m: "(h, length p) \<in> set cs" unfolding cs lens_of_def using assms(2) by force
  have z: "0 \<notin> fst ` set cs" using assms(4) keys_lens_of[of cl] unfolding cs
    by (metis set_map)
  show ?thesis
    unfolding createblocks_def assms(1)
    using pack_blocks_oversized[OF la m assms(3) z] by simp
qed

subsection \<open>Further concrete inputs\<close>

lemma utf8_b: "encode_utf8 (ascii_lower (str ''b'')) = Inr [98]"
  by (simp add: str_def ascii_lower_def utf8_char_def)

lemma utf8_A: "encode_utf8 (ascii_lower (str ''A'')) = Inr [97]"
  by (simp add: str_def ascii_lower_def utf8_char_def)

lemma utf8_tsniuxo:
  "encode_utf8 (ascii_lower (str ''tsniuxo'')) = Inr [116, 115, 110, 105, 117, 120, 111]"
  by (simp add: str_def ascii_lower_def utf8_char_def)

lemma utf16_x: "encode_utf16le (str ''x'') = Inr [120, 0]"
  by (simp add: str_def utf16le_char_def le_bytes_2)

lemma utf16_y: "encode_utf16le (str ''y'') = Inr [121, 0]"
  by (simp add: str_def utf16le_char_def le_bytes_2)

lemma encode_a_4095:
  "encode_lines ascii_lower [(str ''a'', replicate 4095 120), (str ''b'', str ''Hi'')] [] []
     = Inr ([(0xE8B7BE43, concat (replicate 4095 (le_bytes 2 120)) @ [0, 0]),
             (0x71BEEFF9, [72, 0, 105, 0, 0, 0])],
            [(0xE8B7BE43, 8192), (0x71BEEFF9, 6)])"
  by (simp add: utf8_a crc_a utf8_b crc_b encode_utf16le_replicate utf16_Hi pack_h_0
      length_concat_replicate)

lemma createblocks_a_4095:
  "createblocks ascii_lower [(str ''a'', replicate 4095 120), (str ''b'', str ''Hi'')]
     = Some (Inr [\<lparr>line_data = [\<lparr>hash = 0xE8B7BE43, offset = 0, len = 8192\<rparr>],
                   block = concat (replicate 4095 (le_bytes 2 120)) @ [0, 0]\<rparr>,
                  \<lparr>line_data = [\<lparr>hash = 0x71BEEFF9, offset = 0, len = 6\<rparr>],
                   block = [72, 0, 105, 0, 0, 0] @ replicate 8186 0\<rparr>])"
proof -
  define A :: bytes where "A = concat (replicate 4095 (le_bytes 2 120)) @ [0, 0]"
  define cl :: "(crchash \<times> bytes) list"
    where "cl = [(0xE8B7BE43, A), (0x71BEEFF9, [72, 0, 105, 0, 0, 0])]"
  have lA: "length A = 8192" by (simp add: A_def length_concat_replicate)
  have g: "GetLineSized [(0xE8B7BE43, 8192), (0x71BEEFF9, 6)] 8192
             = ((Some 0xE8B7BE43, 8192), [(0x71BEEFF9, 6)])"
    by (simp add: GetLineSized_def)
  have mA: "map_of cl 0xE8B7BE43 = Some A" by (simp add: cl_def)
  have mH: "map_of cl 0x71BEEFF9 = Some [72, 0, 105, 0, 0, 0]" by (simp add: cl_def)
  have f1: "fill_block cl [(0xE8B7BE43, 8192), (0x71BEEFF9, 6)] BlockData_init 8192
        = Inr (\<lparr>line_data = [\<lparr>hash = 0xE8B7BE43, offset = 0, len = 8192\<rparr>], block = A\<rparr>,
               [(0x71BEEFF9, 6)])"
    by (subst fill_block_step[OF _ g _ mA])
       (simp_all add: fill_block_0 AddLine_def BlockData_init_def lA)
  have l: "length [72, 0, 105, 0, 0, 0 :: byte] = 6" by simp
  have f2: "fill_block cl [(0x71BEEFF9, 6)] BlockData_init 8192
        = Inr (\<lparr>line_data = [\<lparr>hash = 0x71BEEFF9, offset = 0, len = 6\<rparr>],
                 block = [72, 0, 105, 0, 0, 0] @ replicate 8186 0\<rparr>, [])"
    using fill_block_single[OF _ mH, unfolded l] by simp
  have "pack_blocks cl [(0xE8B7BE43, 8192), (0x71BEEFF9, 6)] []
     = Some (Inr [\<lparr>line_data = [\<lparr>hash = 0xE8B7BE43, offset = 0, len = 8192\<rparr>], block = A\<rparr>,
                  \<lparr>line_data = [\<lparr>hash = 0x71BEEFF9, offset = 0, len = 6\<rparr>],
                   block = [72, 0, 105, 0, 0, 0] @ replicate 8186 0\<rparr>])"
    by (subst pack_blocks_step[OF _ f1], simp, subst pack_blocks_step[OF _ f2], simp)
       (simp add: pack_blocks_Nil)
  then show ?thesis
    unfolding createblocks_def encode_a_4095 cl_def A_def by simp
qed

lemma encode_a_4096:
  "encode_lines ascii_lower [(str ''a'', replicate 4096 120)] [] []
     = Inr ([(0xE8B7BE43, concat (replicate 4096 (le_bytes 2 120)) @ [0, 0])],
            [(0xE8B7BE43, 8194)])"
  by (simp add: utf8_a crc_a encode_utf16le_replicate pack_h_0 length_concat_replicate)

lemma encode_b_5000:
  "encode_lines ascii_lower [(str ''b'', replicate 5000 121)] [] []
     = Inr ([(0x71BEEFF9, concat (replicate 5000 (le_bytes 2 121)) @ [0, 0])],
            [(0x71BEEFF9, 10002)])"
  by (simp add: utf8_b crc_b encode_utf16le_replicate pack_h_0 length_concat_replicate)

lemma encode_A_a:
  assumes "encode_utf16le line = Inr lb"
  shows "encode_lines ascii_lower [(str ''A'', line), (str ''a'', str ''y'')] [] []
     = Inr ([(0xE8B7BE43, [121, 0, 0, 0])], [(0xE8B7BE43, 4)])"
  by (simp add: utf8_A utf8_a crc_a assms utf16_y pack_h_0)

lemma createblocks_A_a:
  assumes "encode_utf16le line = Inr lb"
  shows "createblocks ascii_lower [(str ''A'', line), (str ''a'', str ''y'')]
     = Some (Inr [\<lparr>line_data = [\<lparr>hash = 0xE8B7BE43, offset = 0, len = 4\<rparr>],
                   block = [121, 0, 0, 0] @ replicate 8188 0\<rparr>])"
proof -
  have l: "length [121, 0, 0, 0 :: byte] = 4" by simp
  have "pack_blocks [(0xE8B7BE43, [121, 0, 0, 0])] [(0xE8B7BE43, 4)] []
     = Some (Inr [\<lparr>line_data = [\<lparr>hash = 0xE8B7BE43, offset = 0, len = 4\<rparr>],
                   block = [121, 0, 0, 0] @ replicate (8192 - 4) 0\<rparr>])"
    using pack_blocks_single[of "0xE8B7BE43" "[121, 0, 0, 0]", unfolded l] by simp
  then show ?thesis
    unfolding createblocks_def encode_A_a[OF assms] by simp
qed

lemma createdirectory_A_a:
  "createdirectory [\<lparr>line_data = [\<lparr>hash = 0xE8B7BE43, offset = 0, len = 4\<rparr>],
                   block = [121, 0, 0, 0] @ replicate 8188 0\<rparr>]
     = Inr (DirectoryRecord 0 \<lparr>hash = 0xE8B7BE43, offset = 0, len = 4\<rparr>)"
  by (subst createdirectory_eval)
     (simp_all add: placements_def placements_from_def spec_directory_def)

lemma serialize_A_a:
  assumes "encode_utf16le line = Inr lb"
  shows "serialize ascii_lower [(str ''A'', line), (str ''a'', str ''y'')]
     = Some (Inr (MAGIC_KEYWORD @ le_bytes 4 1 @ le_bytes 4 1 @ le_bytes 4 8192 @ le_bytes 4 2
         @ le_bytes 4 512
         @ DirectoryRecord 0 \<lparr>hash = 0xE8B7BE43, offset = 0, len = 4\<rparr>
         @ replicate 476 0
         @ [121, 0, 0, 0] @ replicate 8188 0))"
  by (subst serialize_eval[OF createblocks_A_a[OF assms] createdirectory_A_a])
     (simp_all add: length_DirectoryRecord flip: numeral_2_eq_2)

lemma encode_5000_4000:
  "encode_lines ascii_lower [(str ''a'', replicate 2499 120), (str ''b'', replicate 1999 121)] [] []
     = Inr ([(0xE8B7BE43, concat (replicate 2499 (le_bytes 2 120)) @ [0, 0]),
             (0x71BEEFF9, concat (replicate 1999 (le_bytes 2 121)) @ [0, 0])],
            [(0xE8B7BE43, 5000), (0x71BEEFF9, 4000)])"
  by (simp add: utf8_a crc_a utf8_b crc_b encode_utf16le_replicate pack_h_0
      length_concat_replicate)

lemma encode_tsniuxo:
  "encode_lines ascii_lower [(str ''tsniuxo'', str ''x'')] [] []
     = Inr ([(0, [120, 0, 0, 0])], [(0, 4)])"
  by (simp add: utf8_tsniuxo crc_tsniuxo utf16_x pack_h_0)

subsection \<open>The encoder\<close>

lemma encode_lines_append:
  "encode_lines lower (xs @ ys) cl cs =
     (case encode_lines lower xs cl cs of
        Inl e \<Rightarrow> Inl e
      | Inr (cl', cs') \<Rightarrow> encode_lines lower ys cl' cs')"
proof (induction xs arbitrary: cl cs)
  case Nil
  then show ?case by simp
next
  case (Cons a xs)
  obtain name line where a: "a = (name, line)" by (cases a)
  show ?case unfolding a by (simp add: Cons.IH split: sum.splits)
qed

lemma encode_lines_keeps:
  assumes "encode_lines lower post cl cs = Inr (cl', cs')"
    and "map_of cl h = Some p" "map_of cs h = Some n"
    and "Inr h \<notin> name_hash lower ` fst ` set post"
  shows "map_of cl' h = Some p \<and> map_of cs' h = Some n"
  using assms
proof (induction post arbitrary: cl cs)
  case Nil
  then show ?case by simp
next
  case (Cons a post)
  obtain name line where a: "a = (name, line)" by (cases a)
  from Cons.prems(1) a obtain nb lb t where
    e: "encode_utf8 (lower name) = Inr nb" "encode_utf16le line = Inr lb" "pack_h 0 = Inr t"
    and rec: "encode_lines lower post (AList.update (crc32 nb) (lb @ t) cl)
                (AList.update (crc32 nb) (length (lb @ t)) cs) = Inr (cl', cs')"
    by (auto split: sum.splits)
  from Cons.prems(4) a e(1) have ne: "crc32 nb \<noteq> h"
    by (auto simp: name_hash_def image_iff)
  from Cons.prems(4) have rest: "Inr h \<notin> name_hash lower ` fst ` set post" by simp
  show ?case
    by (rule Cons.IH[OF rec _ _ rest])
       (simp_all add: update_conv' ne ne[symmetric] Cons.prems)
qed

lemma length_utf16le_char:
  "utf16le_char c = Inr b \<Longrightarrow> length b = 2 * (if c < 0x10000 then 1 else 2)"
  by (auto simp: utf16le_char_def split: if_splits)

lemma length_encode_utf16le:
  "encode_utf16le line = Inr lb \<Longrightarrow> length lb = 2 * utf16_units line"
proof (induction line arbitrary: lb)
  case Nil
  then show ?case by (simp add: utf16_units_def)
next
  case (Cons c line)
  from Cons.prems obtain b bs where
    b: "utf16le_char c = Inr b" and bs: "encode_utf16le line = Inr bs" and lb: "lb = b @ bs"
    by (auto split: sum.splits)
  from Cons.IH[OF bs] length_utf16le_char[OF b] show ?case
    unfolding lb by (simp add: utf16_units_def)
qed

subsection \<open>The output before and after the first-block offset\<close>

lemma serialize_layout:
  assumes "serialize lower lines = Some (Inr file)"
  shows "\<exists>blocks directory.
      createblocks lower lines = Some (Inr blocks) \<and> createdirectory blocks = Inr directory
    \<and> header_field 20 file = ((24 + length directory) div 512 + 1) * 512
    \<and> length (take (header_field 20 file) file) = header_field 20 file
    \<and> take (header_field 20 file) file
        = take 24 file @ directory
          @ replicate (header_field 20 file - (24 + length directory)) 0
    \<and> drop (header_field 20 file) file = concat (map block blocks)"
proof -
  from serialize_Inr[OF assms] obtain blocks directory where
    cb: "createblocks lower lines = Some (Inr blocks)"
    and cd: "createdirectory blocks = Inr directory"
    and f: "file = MAGIC_KEYWORD @ le_bytes 4 1 @ le_bytes 4 (length blocks) @ le_bytes 4 8192
         @ le_bytes 4 (length lines)
         @ le_bytes 4 (((24 + length directory) div 512 + 1) * 512) @ directory
         @ replicate (((24 + length directory) div 512 + 1) * 512 - (24 + length directory)) 0
         @ concat (map block blocks)"
    and r: "((24 + length directory) div 512 + 1) * 512 < 2 ^ 31"
    by blast
  define off where "off = ((24 + length directory) div 512 + 1) * 512"
  have hf: "header_field 20 file = off"
    using r unfolding f header_field_20 off_def by simp
  have gt: "24 + length directory < off"
    unfolding off_def using dividend_less_div_times[of 512 "24 + length directory"] by simp
  have f': "file = (MAGIC_KEYWORD @ le_bytes 4 1 @ le_bytes 4 (length blocks) @ le_bytes 4 8192
         @ le_bytes 4 (length lines) @ le_bytes 4 off) @ directory
         @ replicate (off - (24 + length directory)) 0 @ concat (map block blocks)"
    unfolding f off_def by simp
  have l24: "length (MAGIC_KEYWORD @ le_bytes 4 1 @ le_bytes 4 (length blocks) @ le_bytes 4 8192
         @ le_bytes 4 (length lines) @ le_bytes 4 off) = 24"
    by (simp add: MAGIC_KEYWORD_def)
  have t24: "take 24 file = MAGIC_KEYWORD @ le_bytes 4 1 @ le_bytes 4 (length blocks)
         @ le_bytes 4 8192 @ le_bytes 4 (length lines) @ le_bytes 4 off"
    unfolding f' using l24 by simp
  have pre: "file = (take 24 file @ directory @ replicate (off - (24 + length directory)) 0)
                @ concat (map block blocks)"
    unfolding t24 using f' by simp
  have lpre: "length (take 24 file @ directory @ replicate (off - (24 + length directory)) 0) = off"
    unfolding t24 using l24 gt by simp
  have tk: "take off file = take 24 file @ directory @ replicate (off - (24 + length directory)) 0"
    using pre lpre by (metis append_eq_conv_conj)
  have dr: "drop off file = concat (map block blocks)"
    using pre lpre by (metis append_eq_conv_conj)
  have "length (take off file) = off" using tk lpre by simp
  then have lo: "length (take off file) = off" .
  show ?thesis
    apply (rule exI[of _ blocks], rule exI[of _ directory])
    unfolding hf using cb cd tk dr lo by (simp add: off_def)
qed

section \<open>The claims\<close>

text \<open>
  Claim C1, amended. Whenever \<open>_createblocks\<close> returns blocks for an input, with
  \<open>crc_line\<close> the hash-to-payload mapping of the encoder: the hashes of the placement
  records of all blocks are exactly the keys of \<open>crc_line\<close>, each once (every payload
  is placed in exactly one block); every placement record points at the whole payload of
  its hash inside one block, the payloads following one another from offset 0 (no
  payload is split); and the payload bytes of each block are at most 8192.
\<close>

theorem packed_blocks:
  assumes "createblocks lower lines = Some (Inr blocks)"
  shows "\<exists>crc_line.
      encode_lines lower lines [] [] = Inr (crc_line, lens_of crc_line)
    \<and> distinct (map fst crc_line)
    \<and> mset (placed_hashes blocks) = mset (map fst crc_line)
    \<and> list_all (finished crc_line) blocks"
  using createblocks_Inr[OF assms] by blast

text \<open>
  An input of two captions whose first payload fills a block exactly: the blocks it is
  packed into have the properties above.
\<close>

theorem packed_blocks_witness:
  "\<exists>crc_line.
      encode_lines ascii_lower [(str ''a'', replicate 4095 120), (str ''b'', str ''Hi'')] [] []
        = Inr (crc_line, lens_of crc_line)
    \<and> distinct (map fst crc_line)
    \<and> mset (placed_hashes
          [\<lparr>line_data = [\<lparr>hash = 0xE8B7BE43, offset = 0, len = 8192\<rparr>],
             block = concat (replicate 4095 (le_bytes 2 120)) @ [0, 0]\<rparr>,
           \<lparr>line_data = [\<lparr>hash = 0x71BEEFF9, offset = 0, len = 6\<rparr>],
             block = [72, 0, 105, 0, 0, 0] @ replicate 8186 0\<rparr>])
        = mset (map fst crc_line)
    \<and> list_all (finished crc_line)
          [\<lparr>line_data = [\<lparr>hash = 0xE8B7BE43, offset = 0, len = 8192\<rparr>],
             block = concat (replicate 4095 (le_bytes 2 120)) @ [0, 0]\<rparr>,
           \<lparr>line_data = [\<lparr>hash = 0x71BEEFF9, offset = 0, len = 6\<rparr>],
             block = [72, 0, 105, 0, 0, 0] @ replicate 8186 0\<rparr>]"
  by (rule packed_blocks[OF createblocks_a_4095])

text \<open>
  The claim as stated fails: for the single caption \<open>a\<close> with a text of 4096 letters the
  payload has 8194 bytes, and \<open>_createblocks\<close> produces no blocks but raises
  \<open>ValueError\<close>.
\<close>

theorem oversized_payload_counterexample:
  "encode_lines ascii_lower [(str ''a'', replicate 4096 120)] [] []
     = Inr ([(0xE8B7BE43, concat (replicate 4096 (le_bytes 2 120)) @ [0, 0])],
            [(0xE8B7BE43, 8194)])
   \<and> createblocks ascii_lower [(str ''a'', replicate 4096 120)] = Some (Inl ValueError)"
proof -
  have "createblocks ascii_lower [(str ''a'', replicate 4096 120)] = Some (Inl ValueError)"
    by (rule createblocks_oversized[OF encode_a_4096,
          of "0xE8B7BE43" "concat (replicate 4096 (le_bytes 2 120)) @ [0, 0]"])
       (simp_all add: length_concat_replicate)
  with encode_a_4096 show ?thesis by simp
qed

text \<open>
  Claim C2. The entry placed next is the largest not-yet-placed entry whose payload is
  at most the remaining capacity of the block. \<open>GetLineSized\<close> never reads its argument
  \<open>size\<close>: for the captions \<open>a\<close> (payload of 5000 bytes) and \<open>b\<close> (payload of 4000
  bytes), after \<open>a\<close> is placed 3192 bytes remain, \<open>GetLineSized\<close> returns the hash of
  \<open>b\<close> all the same, \<open>b\<close> is placed in the same block, and \<open>Fill\<close> raises
  \<open>ValueError\<close> on the 9000 bytes.
\<close>

theorem GetLineSized_ignores_size:
  "encode_lines ascii_lower [(str ''a'', replicate 2499 120), (str ''b'', replicate 1999 121)] [] []
     = Inr ([(0xE8B7BE43, concat (replicate 2499 (le_bytes 2 120)) @ [0, 0]),
             (0x71BEEFF9, concat (replicate 1999 (le_bytes 2 121)) @ [0, 0])],
            [(0xE8B7BE43, 5000), (0x71BEEFF9, 4000)])
   \<and> GetLineSized [(0xE8B7BE43, 5000), (0x71BEEFF9, 4000)] 8192
       = ((Some 0xE8B7BE43, 5000), [(0x71BEEFF9, 4000)])
   \<and> GetLineSized [(0x71BEEFF9, 4000)] (8192 - 5000) = ((Some 0x71BEEFF9, 4000), [])
   \<and> createblocks ascii_lower [(str ''a'', replicate 2499 120), (str ''b'', replicate 1999 121)]
       = Some (Inl ValueError)"
proof -
  define A :: bytes where "A = concat (replicate 2499 (le_bytes 2 120)) @ [0, 0]"
  define B :: bytes where "B = concat (replicate 1999 (le_bytes 2 121)) @ [0, 0]"
  define cl :: "(crchash \<times> bytes) list" where "cl = [(0xE8B7BE43, A), (0x71BEEFF9, B)]"
  have lA: "length A = 5000" by (simp add: A_def length_concat_replicate)
  have lB: "length B = 4000" by (simp add: B_def length_concat_replicate)
  have g1: "GetLineSized [(0xE8B7BE43, 5000), (0x71BEEFF9, 4000)] 8192
       = ((Some 0xE8B7BE43, 5000), [(0x71BEEFF9, 4000)])"
    by (simp add: GetLineSized_def)
  have g2: "GetLineSized [(0x71BEEFF9, 4000)] (8192 - 5000) = ((Some 0x71BEEFF9, 4000), [])"
    by (simp add: GetLineSized_def)
  have mA: "map_of cl 0xE8B7BE43 = Some A" by (simp add: cl_def)
  have mB: "map_of cl 0x71BEEFF9 = Some B" by (simp add: cl_def)
  have la: "lengths_agree cl []" by (simp add: lengths_agree_def)
  have "fill_block cl [(0xE8B7BE43, 5000), (0x71BEEFF9, 4000)] BlockData_init 8192
      = fill_block cl [(0x71BEEFF9, 4000)] (AddLine BlockData_init 0xE8B7BE43 A) (8192 - 5000)"
    by (subst fill_block_step[OF _ g1 _ mA]) simp_all
  also have "\<dots> = fill_block cl [] (AddLine (AddLine BlockData_init 0xE8B7BE43 A) 0x71BEEFF9 B)
      (8192 - 5000 - 4000)"
    by (subst fill_block_step[OF _ g2 _ mB]) simp_all
  also have "\<dots> = Inl ValueError"
    by (rule fill_block_overfull[OF _ la])
       (simp_all add: length_AddLine BlockData_init_def lA lB)
  finally have "pack_blocks cl [(0xE8B7BE43, 5000), (0x71BEEFF9, 4000)] [] = Some (Inl ValueError)"
    by (subst pack_blocks.simps) simp
  then have "createblocks ascii_lower
      [(str ''a'', replicate 2499 120), (str ''b'', replicate 1999 121)] = Some (Inl ValueError)"
    unfolding createblocks_def encode_5000_4000 cl_def A_def B_def by simp
  with encode_5000_4000 g1 g2 show ?thesis by (intro conjI)
qed

text \<open>
  Claim C3, amended. When the hash-to-payload mapping of the encoder holds a payload
  longer than 8192 bytes and no entry has the hash 0, \<open>_createblocks\<close> and
  \<open>serialize\<close> raise \<open>ValueError\<close> (from \<open>Fill\<close>, on a block longer than
  \<open>BLOCK_SIZE\<close>): no output is produced, nothing is truncated or split.
\<close>

theorem oversized_payload_fails:
  assumes "encode_lines lower lines [] [] = Inr (crc_line, crc_strlen)"
    and "(h, payload) \<in> set crc_line" "8192 < length payload" "0 \<notin> fst ` set crc_line"
  shows "createblocks lower lines = Some (Inl ValueError)
       \<and> serialize lower lines = Some (Inl ValueError)"
  using createblocks_oversized[OF assms] serialize_error by blast

text \<open>The caption \<open>b\<close> with a text of 5000 letters: a payload of 10002 bytes.\<close>

theorem oversized_payload_fails_witness:
  "encode_lines ascii_lower [(str ''b'', replicate 5000 121)] [] []
     = Inr ([(0x71BEEFF9, concat (replicate 5000 (le_bytes 2 121)) @ [0, 0])],
            [(0x71BEEFF9, 10002)])
   \<and> length (concat (replicate 5000 (le_bytes 2 121)) @ [0, 0 :: byte]) = 10002
   \<and> createblocks ascii_lower [(str ''b'', replicate 5000 121)] = Some (Inl ValueError)
   \<and> serialize ascii_lower [(str ''b'', replicate 5000 121)] = Some (Inl ValueError)"
proof -
  have "createblocks ascii_lower [(str ''b'', replicate 5000 121)] = Some (Inl ValueError)
      \<and> serialize ascii_lower [(str ''b'', replicate 5000 121)] = Some (Inl ValueError)"
    by (rule oversized_payload_fails[OF encode_b_5000,
          of "0x71BEEFF9" "concat (replicate 5000 (le_bytes 2 121)) @ [0, 0]"])
       (simp_all add: length_concat_replicate)
  with encode_b_5000 show ?thesis by (simp add: length_concat_replicate)
qed

text \<open>
  The claim as stated fails: the input holds the caption \<open>A\<close> with a text of 4096
  letters, whose payload has 8194 bytes, and the caption \<open>a\<close> with the text \<open>y\<close>. Both
  names have the same lowercased form, the second payload replaces the first in
  \<open>crc_line\<close>, and \<open>serialize\<close> returns a file of one block.
\<close>

theorem oversized_payload_replaced_counterexample:
  "encode_utf16le (replicate 4096 120) = Inr (concat (replicate 4096 (le_bytes 2 120)))
   \<and> length (concat (replicate 4096 (le_bytes 2 120)) @ [0, 0 :: byte]) = 8194
   \<and> serialize ascii_lower [(str ''A'', replicate 4096 120), (str ''a'', str ''y'')]
     = Some (Inr (MAGIC_KEYWORD @ le_bytes 4 1 @ le_bytes 4 1 @ le_bytes 4 8192 @ le_bytes 4 2
         @ le_bytes 4 512
         @ DirectoryRecord 0 \<lparr>hash = 0xE8B7BE43, offset = 0, len = 4\<rparr>
         @ replicate 476 0
         @ [121, 0, 0, 0] @ replicate 8188 0))"
proof -
  have e: "encode_utf16le (replicate 4096 120) = Inr (concat (replicate 4096 (le_bytes 2 120)))"
    by (rule encode_utf16le_replicate) simp
  from e serialize_A_a[OF e] show ?thesis by (simp add: length_concat_replicate)
qed

text \<open>
  Claim C4. The packing terminates for every input, also when the CRC-32 of a lowercased
  name is 0. The CRC-32 of \<open>tsniuxo\<close> is 0: \<open>GetLineSized\<close> returns the hash 0 and,
  because \<open>if chash:\<close> is false for 0, leaves the entry in \<open>crc_strlen\<close>; the caller
  takes the hash 0 for "nothing left", fills the block and appends it, and
  \<open>while len(crc_strlen)\<close> goes round again with the same \<open>crc_strlen\<close>:
  \<open>_createblocks\<close> and \<open>serialize\<close> never return.
\<close>

theorem hash_zero_never_returns:
  "encode_lines ascii_lower [(str ''tsniuxo'', str ''x'')] [] []
     = Inr ([(0, [120, 0, 0, 0])], [(0, 4)])
   \<and> GetLineSized [(0, 4)] 8192 = ((Some 0, 4), [(0, 4)])
   \<and> createblocks ascii_lower [(str ''tsniuxo'', str ''x'')] = None
   \<and> serialize ascii_lower [(str ''tsniuxo'', str ''x'')] = None"
proof -
  have g: "GetLineSized [(0, 4)] 8192 = ((Some 0, 4), [(0, 4)])"
    by (simp add: GetLineSized_def)
  have c: "createblocks ascii_lower [(str ''tsniuxo'', str ''x'')] = None"
    unfolding createblocks_def encode_tsniuxo by (simp add: pack_blocks_hash_zero)
  from encode_tsniuxo g c serialize_None[OF c] show ?thesis by (intro conjI)
qed

text \<open>
  Claim C5. The entry count in the header is the number of directory records. The
  header field is \<open>len(self.lines.keys())\<close>, the number of names: for the captions
  \<open>A\<close> and \<open>a\<close>, whose lowercased names are the same, the field at byte 16 is 2, while
  the blocks hold one placement record and the directory one record.
\<close>

theorem entry_count_counts_names:
  "serialize ascii_lower [(str ''A'', str ''x''), (str ''a'', str ''y'')]
     = Some (Inr (MAGIC_KEYWORD @ le_bytes 4 1 @ le_bytes 4 1 @ le_bytes 4 8192 @ le_bytes 4 2
         @ le_bytes 4 512
         @ DirectoryRecord 0 \<lparr>hash = 0xE8B7BE43, offset = 0, len = 4\<rparr>
         @ replicate 476 0
         @ [121, 0, 0, 0] @ replicate 8188 0))
   \<and> header_field 16 (MAGIC_KEYWORD @ le_bytes 4 1 @ le_bytes 4 1 @ le_bytes 4 8192
         @ le_bytes 4 2 @ le_bytes 4 512
         @ DirectoryRecord 0 \<lparr>hash = 0xE8B7BE43, offset = 0, len = 4\<rparr>
         @ replicate 476 0
         @ [121, 0, 0, 0] @ replicate 8188 0) = 2
   \<and> createblocks ascii_lower [(str ''A'', str ''x''), (str ''a'', str ''y'')]
     = Some (Inr [\<lparr>line_data = [\<lparr>hash = 0xE8B7BE43, offset = 0, len = 4\<rparr>],
                   block = [121, 0, 0, 0] @ replicate 8188 0\<rparr>])
   \<and> placements [\<lparr>line_data = [\<lparr>hash = 0xE8B7BE43, offset = 0, len = 4\<rparr>],
                   block = [121, 0, 0, 0] @ replicate 8188 0\<rparr>]
     = [(0, \<lparr>hash = 0xE8B7BE43, offset = 0, len = 4\<rparr>)]"
proof -
  have h: "header_field 16 (MAGIC_KEYWORD @ le_bytes 4 1 @ le_bytes 4 1 @ le_bytes 4 8192
         @ le_bytes 4 2 @ rest) = 2" for rest
    unfolding header_field_16 by simp
  have p: "placements [\<lparr>line_data = [\<lparr>hash = 0xE8B7BE43, offset = 0, len = 4\<rparr>],
                   block = [121, 0, 0, 0] @ replicate 8188 0\<rparr>]
     = [(0, \<lparr>hash = 0xE8B7BE43, offset = 0, len = 4\<rparr>)]"
    by (simp add: placements_def placements_from_def)
  from serialize_A_a[OF utf16_x] createblocks_A_a[OF utf16_x] h p show ?thesis
    by (intro conjI)
qed

text \<open>
  Claim C6. Whenever \<open>serialize\<close> returns a file, the first-block offset in its header
  (the four bytes at position 20) is \<open>(raw div 512 + 1) * 512\<close> for
  \<open>raw = 24 + length directory\<close>: a positive multiple of 512, strictly greater than
  \<open>raw\<close>. The bytes before the blocks are the 24 bytes of header, the directory and
  zeros, exactly that many; the blocks follow.
\<close>

theorem first_block_offset:
  assumes "serialize lower lines = Some (Inr file)"
  shows "\<exists>blocks directory.
      createblocks lower lines = Some (Inr blocks) \<and> createdirectory blocks = Inr directory
    \<and> header_field 20 file = ((24 + length directory) div 512 + 1) * 512
    \<and> 0 < header_field 20 file \<and> 512 dvd header_field 20 file
    \<and> 24 + length directory < header_field 20 file
    \<and> length (take (header_field 20 file) file) = header_field 20 file
    \<and> take (header_field 20 file) file
        = take 24 file @ directory
          @ replicate (header_field 20 file - (24 + length directory)) 0
    \<and> drop (header_field 20 file) file = concat (map block blocks)"
proof -
  from serialize_layout[OF assms] obtain blocks directory where
    cb: "createblocks lower lines = Some (Inr blocks)"
    and cd: "createdirectory blocks = Inr directory"
    and hf: "header_field 20 file = ((24 + length directory) div 512 + 1) * 512"
    and ln: "length (take (header_field 20 file) file) = header_field 20 file"
    and tk: "take (header_field 20 file) file
        = take 24 file @ directory
          @ replicate (header_field 20 file - (24 + length directory)) 0"
    and dr: "drop (header_field 20 file) file = concat (map block blocks)"
    by blast
  have gt: "24 + length directory < header_field 20 file"
    unfolding hf using dividend_less_div_times[of 512 "24 + length directory"] by simp
  have dv: "512 dvd header_field 20 file"
    unfolding hf by simp
  from gt have pos: "0 < header_field 20 file" by simp
  from cb cd hf gt dv pos ln tk dr show ?thesis by blast
qed

theorem first_block_offset_witness:
  "\<exists>file. serialize ascii_lower [(str ''a'', str ''Hi'')] = Some (Inr file)
      \<and> header_field 20 file = 512 \<and> length (take 512 file) = 512
      \<and> take 512 file
          = take 24 file @ DirectoryRecord 0 \<lparr>hash = 0xE8B7BE43, offset = 0, len = 6\<rparr>
            @ replicate 476 0
      \<and> drop 512 file = [72, 0, 105, 0, 0, 0] @ replicate 8186 0"
proof -
  define out where "out = MAGIC_KEYWORD @ le_bytes 4 1 @ le_bytes 4 1 @ le_bytes 4 8192
         @ le_bytes 4 1 @ le_bytes 4 512
         @ DirectoryRecord 0 \<lparr>hash = 0xE8B7BE43, offset = 0, len = 6\<rparr>
         @ replicate 476 0 @ [72, 0, 105, 0, 0, 0] @ replicate 8186 0"
  have s: "serialize ascii_lower [(str ''a'', str ''Hi'')] = Some (Inr out)"
    unfolding out_def by (rule serialize_a_Hi)
  from first_block_offset[OF s] obtain blocks directory where
    cb: "createblocks ascii_lower [(str ''a'', str ''Hi'')] = Some (Inr blocks)"
    and cd: "createdirectory blocks = Inr directory"
    and hf: "header_field 20 out = ((24 + length directory) div 512 + 1) * 512"
    and ln: "length (take (header_field 20 out) out) = header_field 20 out"
    and tk: "take (header_field 20 out) out = take 24 out @ directory
          @ replicate (header_field 20 out - (24 + length directory)) 0"
    and dr: "drop (header_field 20 out) out = concat (map block blocks)"
    by blast
  from cb have b: "blocks = [\<lparr>line_data = [\<lparr>hash = 0xE8B7BE43, offset = 0, len = 6\<rparr>],
                   block = [72, 0, 105, 0, 0, 0] @ replicate 8186 0\<rparr>]"
    unfolding createblocks_a_Hi by simp
  from cd have d: "directory = DirectoryRecord 0 \<lparr>hash = 0xE8B7BE43, offset = 0, len = 6\<rparr>"
    unfolding b createdirectory_a_Hi by simp
  have l: "length directory = 12" unfolding d by (rule length_DirectoryRecord)
  have h: "header_field 20 out = 512" unfolding hf l by simp
  have "length (take 512 out) = 512" using ln unfolding h .
  moreover have "take 512 out = take 24 out
      @ DirectoryRecord 0 \<lparr>hash = 0xE8B7BE43, offset = 0, len = 6\<rparr> @ replicate 476 0"
    using tk unfolding h l d by (simp add: length_DirectoryRecord)
  moreover have "drop 512 out = [72, 0, 105, 0, 0, 0] @ replicate 8186 0"
    using dr unfolding h b by simp
  ultimately show ?thesis using s h by blast
qed

text \<open>
  Claim C7. Whenever \<open>serialize\<close> returns a file, the block count of the header is the
  number of blocks, the file is as long as the first-block offset plus 8192 bytes for
  each block, and the \<open>i\<close>-th stretch of 8192 bytes after the offset is the buffer of
  block \<open>i\<close>, which is 8192 bytes long and all zero after its payload bytes.
\<close>

theorem blocks_fixed_size:
  assumes "serialize lower lines = Some (Inr file)"
  shows "\<exists>blocks.
      createblocks lower lines = Some (Inr blocks)
    \<and> header_field 8 file = length blocks
    \<and> length file = header_field 20 file + 8192 * length blocks
    \<and> (\<forall>i<length blocks.
          take 8192 (drop (header_field 20 file + 8192 * i) file) = block (blocks ! i)
        \<and> length (block (blocks ! i)) = 8192
        \<and> payload_bytes (blocks ! i) \<le> 8192
        \<and> drop (payload_bytes (blocks ! i)) (block (blocks ! i))
            = replicate (8192 - payload_bytes (blocks ! i)) 0)"
proof -
  from serialize_layout[OF assms] obtain blocks directory where
    cb: "createblocks lower lines = Some (Inr blocks)"
    and ln: "length (take (header_field 20 file) file) = header_field 20 file"
    and dr: "drop (header_field 20 file) file = concat (map block blocks)"
    by blast
  have h8: "header_field 8 file = length blocks"
    by (rule header_block_count[OF assms cb])
  from createblocks_Inr[OF cb] obtain cl where fin: "list_all (finished cl) blocks" by blast
  then have fin': "finished cl (blocks ! i)" if "i < length blocks" for i
    using that by (simp add: list_all_length)
  have len: "\<forall>b\<in>set (map block blocks). length b = 8192"
    using fin by (auto simp: list_all_iff finished_def BLOCK_SIZE_def)
  have "length file = length (take (header_field 20 file) file @ drop (header_field 20 file) file)"
    by simp
  also have "\<dots> = header_field 20 file + length (concat (map block blocks))"
    by (simp only: length_append ln dr)
  finally have total: "length file = header_field 20 file + 8192 * length blocks"
    using length_concat_blocks[OF len] by simp
  have each: "take 8192 (drop (header_field 20 file + 8192 * i) file) = block (blocks ! i)
        \<and> length (block (blocks ! i)) = 8192 \<and> payload_bytes (blocks ! i) \<le> 8192
        \<and> drop (payload_bytes (blocks ! i)) (block (blocks ! i))
            = replicate (8192 - payload_bytes (blocks ! i)) 0"
    if "i < length blocks" for i
    using fin'[OF that] block_slice[OF len dr that] by (simp add: finished_def BLOCK_SIZE_def)
  from cb h8 total each show ?thesis
    by blast
qed

theorem blocks_fixed_size_witness:
  "\<exists>file. serialize ascii_lower [(str ''a'', str ''Hi'')] = Some (Inr file)
      \<and> header_field 8 file = 1 \<and> length file = 512 + 8192
      \<and> take 8192 (drop 512 file) = [72, 0, 105, 0, 0, 0] @ replicate 8186 0
      \<and> length ([72, 0, 105, 0, 0, 0] @ replicate 8186 (0 :: byte)) = 8192"
proof -
  define out where "out = MAGIC_KEYWORD @ le_bytes 4 1 @ le_bytes 4 1 @ le_bytes 4 8192
         @ le_bytes 4 1 @ le_bytes 4 512
         @ DirectoryRecord 0 \<lparr>hash = 0xE8B7BE43, offset = 0, len = 6\<rparr>
         @ replicate 476 0 @ [72, 0, 105, 0, 0, 0] @ replicate 8186 0"
  have s: "serialize ascii_lower [(str ''a'', str ''Hi'')] = Some (Inr out)"
    unfolding out_def by (rule serialize_a_Hi)
  have h: "header_field 20 out = 512"
    unfolding out_def header_field_20 by simp
  from blocks_fixed_size[OF s] obtain blocks where
    cb: "createblocks ascii_lower [(str ''a'', str ''Hi'')] = Some (Inr blocks)"
    and h8: "header_field 8 out = length blocks"
    and total: "length out = header_field 20 out + 8192 * length blocks"
    and each: "\<forall>i<length blocks.
          take 8192 (drop (header_field 20 out + 8192 * i) out) = block (blocks ! i)
        \<and> length (block (blocks ! i)) = 8192"
    by blast
  from cb have b: "blocks = [\<lparr>line_data = [\<lparr>hash = 0xE8B7BE43, offset = 0, len = 6\<rparr>],
                   block = [72, 0, 105, 0, 0, 0] @ replicate 8186 0\<rparr>]"
    unfolding createblocks_a_Hi by simp
  have "header_field 8 out = 1" using h8 unfolding b by simp
  moreover have "length out = 512 + 8192" using total unfolding h b by simp
  moreover from each have "take 8192 (drop (header_field 20 out + 8192 * 0) out) = block (blocks ! 0)
      \<and> length (block (blocks ! 0)) = 8192"
    unfolding b by simp
  then have "take 8192 (drop 512 out) = [72, 0, 105, 0, 0, 0] @ replicate 8186 0
      \<and> length ([72, 0, 105, 0, 0, 0] @ replicate 8186 (0 :: byte)) = 8192"
    unfolding h b by simp
  ultimately show ?thesis using s by blast
qed

text \<open>
  Claim C8. Whenever \<open>_createdirectory\<close> returns, the directory is the concatenation
  of one 12-byte record per placement record, in block order and then in placement
  order, each record made of the hash and the index of the owning block as unsigned
  32-bit integers and the offset in the block and the payload length as unsigned 16-bit
  integers, all little-endian; reading the records back gives these four values.
\<close>

theorem directory_records:
  assumes "createdirectory blocks = Inr directory"
  shows "directory = spec_directory blocks
       \<and> length directory = 12 * length (placements blocks)
       \<and> read_records (length (placements blocks)) directory
           = map (\<lambda>(i, ld). (unat (hash ld), i, offset ld, len ld)) (placements blocks)"
proof -
  from directory_blocks_Inr[of 0 blocks "[]" directory] assms
  have d: "directory = spec_directory blocks"
    and b: "\<forall>(j, ld)\<in>set (placements blocks). j < 2 ^ 32 \<and> offset ld < 2 ^ 16 \<and> len ld < 2 ^ 16"
    by (simp_all add: createdirectory_def spec_directory_def placements_def)
  from read_records_concat[OF b] d show ?thesis
    by (simp add: spec_directory_def length_concat_records)
qed

theorem directory_records_witness:
  "createdirectory
     [\<lparr>line_data = [\<lparr>hash = 7, offset = 0, len = 10\<rparr>, \<lparr>hash = 5, offset = 10, len = 4\<rparr>],
       block = []\<rparr>,
      \<lparr>line_data = [\<lparr>hash = 9, offset = 0, len = 300\<rparr>], block = []\<rparr>]
     = Inr (DirectoryRecord 0 \<lparr>hash = 7, offset = 0, len = 10\<rparr>
            @ DirectoryRecord 0 \<lparr>hash = 5, offset = 10, len = 4\<rparr>
            @ DirectoryRecord 1 \<lparr>hash = 9, offset = 0, len = 300\<rparr>)
   \<and> read_records 3 (DirectoryRecord 0 \<lparr>hash = 7, offset = 0, len = 10\<rparr>
            @ DirectoryRecord 0 \<lparr>hash = 5, offset = 10, len = 4\<rparr>
            @ DirectoryRecord 1 \<lparr>hash = 9, offset = 0, len = 300\<rparr>)
       = [(7, 0, 0, 10), (5, 0, 10, 4), (9, 1, 0, 300)]"
proof -
  let ?blocks = "[\<lparr>line_data = [\<lparr>hash = 7, offset = 0, len = 10\<rparr>, \<lparr>hash = 5, offset = 10, len = 4\<rparr>],
       block = []\<rparr>,
      \<lparr>line_data = [\<lparr>hash = 9, offset = 0, len = 300\<rparr>], block = []\<rparr>]"
  have p: "placements ?blocks = [(0, \<lparr>hash = 7, offset = 0, len = 10\<rparr>),
      (0, \<lparr>hash = 5, offset = 10, len = 4\<rparr>), (1, \<lparr>hash = 9, offset = 0, len = 300\<rparr>)]"
    by (simp add: placements_def placements_from_def)
  have c: "createdirectory ?blocks = Inr (DirectoryRecord 0 \<lparr>hash = 7, offset = 0, len = 10\<rparr>
            @ DirectoryRecord 0 \<lparr>hash = 5, offset = 10, len = 4\<rparr>
            @ DirectoryRecord 1 \<lparr>hash = 9, offset = 0, len = 300\<rparr>)"
    by (subst createdirectory_eval) (simp_all add: p spec_directory_def)
  have l3: "length [x, y, z] = 3" for x y z :: "nat \<times> LineData" by simp
  from directory_records[OF c] have "read_records (length (placements ?blocks))
      (DirectoryRecord 0 \<lparr>hash = 7, offset = 0, len = 10\<rparr>
            @ DirectoryRecord 0 \<lparr>hash = 5, offset = 10, len = 4\<rparr>
            @ DirectoryRecord 1 \<lparr>hash = 9, offset = 0, len = 300\<rparr>)
       = map (\<lambda>(i, ld). (unat (hash ld), i, offset ld, len ld)) (placements ?blocks)"
    by blast
  then have "read_records 3 (DirectoryRecord 0 \<lparr>hash = 7, offset = 0, len = 10\<rparr>
            @ DirectoryRecord 0 \<lparr>hash = 5, offset = 10, len = 4\<rparr>
            @ DirectoryRecord 1 \<lparr>hash = 9, offset = 0, len = 300\<rparr>)
       = [(7, 0, 0, 10), (5, 0, 10, 4), (9, 1, 0, 300)]"
    unfolding p l3 by simp
  with c show ?thesis by blast
qed

text \<open>
  Claim C9, amended. For every (name, line) pair of the input that no later pair
  replaces (no later name has the same hash), whenever the encoder returns: the name
  and the line can be encoded; \<open>crc_line\<close> holds, under the whole 32-bit CRC-32 of the
  UTF-8 bytes of the lowercased name, the UTF-16LE bytes of the line followed by two zero
  bytes; the payload has \<open>2 * utf16_units line + 2\<close> bytes, and \<open>crc_strlen\<close> holds
  that length under the same key.
\<close>

theorem encoder_entry:
  assumes "encode_lines lower (pre @ (name, line) # post) [] [] = Inr (crc_line, crc_strlen)"
    and "name_hash lower name \<notin> name_hash lower ` fst ` set post"
  shows "\<exists>name_bytes line_bytes.
      encode_utf8 (lower name) = Inr name_bytes
    \<and> encode_utf16le line = Inr line_bytes
    \<and> map_of crc_line (crc32 name_bytes) = Some (line_bytes @ [0, 0])
    \<and> length (line_bytes @ [0, 0 :: byte]) = 2 * utf16_units line + 2
    \<and> map_of crc_strlen (crc32 name_bytes) = Some (2 * utf16_units line + 2)"
proof -
  from assms(1) obtain cl1 cs1 where
    step: "encode_lines lower ((name, line) # post) cl1 cs1 = Inr (crc_line, crc_strlen)"
    by (auto simp: encode_lines_append split: sum.splits)
  then obtain nb lb where
    e: "encode_utf8 (lower name) = Inr nb" "encode_utf16le line = Inr lb"
    and rec: "encode_lines lower post (AList.update (crc32 nb) (lb @ [0, 0]) cl1)
                (AList.update (crc32 nb) (length (lb @ [0, 0 :: byte])) cs1)
              = Inr (crc_line, crc_strlen)"
    by (auto simp: pack_h_0 split: sum.splits)
  from assms(2) e(1) have nh: "Inr (crc32 nb) \<notin> name_hash lower ` fst ` set post"
    by (simp add: name_hash_def)
  have len: "length (lb @ [0, 0 :: byte]) = 2 * utf16_units line + 2"
    using length_encode_utf16le[OF e(2)] by simp
  from encode_lines_keeps[OF rec _ _ nh, of "lb @ [0, 0]" "length (lb @ [0, 0 :: byte])"]
  have "map_of crc_line (crc32 nb) = Some (lb @ [0, 0])
      \<and> map_of crc_strlen (crc32 nb) = Some (length (lb @ [0, 0 :: byte]))"
    by (simp add: update_conv')
  with e len show ?thesis by (metis (no_types))
qed

text \<open>
  The pair \<open>(a, y)\<close> between a pair it replaces and a pair with another hash.
\<close>

theorem encoder_entry_witness:
  "encode_lines ascii_lower
      [(str ''A'', str ''x''), (str ''a'', str ''y''), (str ''b'', str ''Hi'')] [] []
     = Inr ([(0xE8B7BE43, [121, 0, 0, 0]), (0x71BEEFF9, [72, 0, 105, 0, 0, 0])],
            [(0xE8B7BE43, 4), (0x71BEEFF9, 6)])
   \<and> (\<exists>name_bytes line_bytes.
        encode_utf8 (ascii_lower (str ''a'')) = Inr name_bytes
      \<and> encode_utf16le (str ''y'') = Inr line_bytes
      \<and> map_of [(0xE8B7BE43, [121, 0, 0, 0]), (0x71BEEFF9, [72, 0, 105, 0, 0, 0])]
           (crc32 name_bytes) = Some (line_bytes @ [0, 0])
      \<and> length (line_bytes @ [0, 0 :: byte]) = 2 * utf16_units (str ''y'') + 2
      \<and> map_of [(0xE8B7BE43, 4), (0x71BEEFF9, 6)] (crc32 name_bytes)
           = Some (2 * utf16_units (str ''y'') + 2))"
proof -
  have e: "encode_lines ascii_lower
      ([(str ''A'', str ''x'')] @ (str ''a'', str ''y'') # [(str ''b'', str ''Hi'')]) [] []
     = Inr ([(0xE8B7BE43, [121, 0, 0, 0]), (0x71BEEFF9, [72, 0, 105, 0, 0, 0])],
            [(0xE8B7BE43, 4), (0x71BEEFF9, 6)])"
    by (simp add: utf8_A utf8_a utf8_b crc_a crc_b utf16_x utf16_y utf16_Hi pack_h_0)
  have h: "name_hash ascii_lower (str ''a'')
      \<notin> name_hash ascii_lower ` fst ` set [(str ''b'', str ''Hi'')]"
    by (simp add: name_hash_def utf8_a utf8_b crc_a crc_b)
  note r = encoder_entry[OF e h]
  from e have "encode_lines ascii_lower
      [(str ''A'', str ''x''), (str ''a'', str ''y''), (str ''b'', str ''Hi'')] [] []
     = Inr ([(0xE8B7BE43, [121, 0, 0, 0]), (0x71BEEFF9, [72, 0, 105, 0, 0, 0])],
            [(0xE8B7BE43, 4), (0x71BEEFF9, 6)])"
    by simp
  from this r show ?thesis by (rule conjI)
qed

text \<open>
  The claim as stated fails: the names \<open>A\<close> and \<open>a\<close> have the same lowercased form and
  the same key. For the pair \<open>(A, x)\<close> the encoder's result holds no entry of the key
  with the payload of \<open>x\<close>: its only entry is the payload of \<open>y\<close>.
\<close>

theorem replaced_pair_counterexample:
  "encode_lines ascii_lower [(str ''A'', str ''x''), (str ''a'', str ''y'')] [] []
     = Inr ([(0xE8B7BE43, [121, 0, 0, 0])], [(0xE8B7BE43, 4)])
   \<and> encode_utf8 (ascii_lower (str ''A'')) = Inr [97]
   \<and> crc32 [97] = 0xE8B7BE43
   \<and> encode_utf16le (str ''x'') = Inr [120, 0]
   \<and> (0xE8B7BE43, [120, 0] @ [0, 0]) \<notin> set [(0xE8B7BE43 :: crchash, [121, 0, 0, 0 :: byte])]"
  using encode_A_a[OF utf16_x] utf8_A crc_a utf16_x by simp

text \<open>
  Claim C10. For the empty input, \<open>serialize\<close> returns exactly 512 bytes: the magic
  \<open>VCCD\<close>, version 1, block count 0, block size 8192, directory entry count 0 and
  first-block offset 512, each as four little-endian bytes (24 bytes of header),
  followed by 488 zero bytes and no block.
\<close>

theorem serialize_empty:
  "serialize lower [] =
     Some (Inr (MAGIC_KEYWORD @ le_bytes 4 1 @ le_bytes 4 0 @ le_bytes 4 8192 @ le_bytes 4 0
                  @ le_bytes 4 512 @ replicate 488 0))
   \<and> MAGIC_KEYWORD = map of_char ''VCCD''
   \<and> length (MAGIC_KEYWORD @ le_bytes 4 1 @ le_bytes 4 0 @ le_bytes 4 8192 @ le_bytes 4 0
                  @ le_bytes 4 512 @ replicate 488 0) = 512"
proof -
  have c: "createblocks lower [] = Some (Inr [])"
    by (simp add: createblocks_def pack_blocks_Nil)
  have d: "createdirectory [] = Inr []"
    by (simp add: createdirectory_def)
  have p: "pack_i 1 = Inr (le_bytes 4 1)" "pack_i 0 = Inr (le_bytes 4 0)"
    "pack_i 8192 = Inr (le_bytes 4 8192)" "pack_i 512 = Inr (le_bytes 4 512)"
    by (simp_all add: pack_i_def)
  have "serialize lower [] =
     Some (Inr (MAGIC_KEYWORD @ le_bytes 4 1 @ le_bytes 4 0 @ le_bytes 4 8192 @ le_bytes 4 0
                  @ le_bytes 4 512 @ replicate 488 0))"
    by (simp add: serialize_def c d p VERSION_def BLOCK_SIZE_def length_le_bytes
        MAGIC_KEYWORD_def)
  moreover have "MAGIC_KEYWORD = map of_char ''VCCD''"
    by (simp add: MAGIC_KEYWORD_def)
  ultimately show ?thesis
    by (simp add: length_le_bytes MAGIC_KEYWORD_def)
qed

end
